theory Spec2Isabelle
  imports Main "HOL-Library.Char_ord" "HOL-Library.List_Lexorder" "HOL-Library.Sublist"
begin

section \<open>Viewers of openapi-to-graphql: a model of \<open>auth_builder.ts\<close>\<close>

text \<open>
  The theory embeds \<open>packages/openapi-to-graphql/src/auth_builder.ts\<close>: the three
  functions \<open>createAndLoadViewer\<close>, \<open>getViewerOT\<close> and \<open>getViewerAnyAuthOT\<close>.
  Mutation of \<open>data\<close> (its sanitize table and its warning report) is explicit state
  passing, a \<open>TypeError\<close> of the JavaScript is the left injection of a sum, and the
  \<open>for ... in\<close> loops are recursion over the entries of the object they enumerate.
\<close>

subsection \<open>JavaScript values\<close>

text \<open>
  An object is the list of its own enumerable properties in enumeration order, which for
  property names that are not array indices is the order of their creation. Reading is
  \<open>obj_get\<close>, the operator \<open>in\<close> is \<open>obj_has\<close>, and the assignment \<open>o[k] = v\<close> is
  \<open>obj_set\<close>: an existing property keeps its place and takes the new value, a new one is
  added at the end. The objects of the module are plain ones: the operator \<open>in\<close> and a
  read also find the members of \<open>Object.prototype\<close>, whose names are
  \<open>objectPrototypeNames\<close>. The module applies them to a name that need not be an own
  property in two places. One is the registry \<open>usedViewerNames\<close>, see \<open>initNames\<close>.
  The other is \<open>data.security[protocolName].def\<close>, which for a name that is no own
  property reads \<open>def\<close> of \<open>undefined\<close> or \<open>def.type\<close> of a member that has no \<open>def\<close>: a
  \<open>TypeError\<close> in both cases, as in the model. Outside the model are property names that
  are array indices (which an engine enumerates first) and an assignment under the name
  \<open>__proto__\<close> (which sets the prototype).
\<close>

type_synonym 'v obj = "(string \<times> 'v) list"

definition obj_keys :: "'v obj \<Rightarrow> string list" where
  "obj_keys ob = map fst ob"

definition obj_get :: "'v obj \<Rightarrow> string \<Rightarrow> 'v option" where
  "obj_get ob k = map_of ob k"

definition obj_has :: "'v obj \<Rightarrow> string \<Rightarrow> bool" where
  "obj_has ob k = (k \<in> set (obj_keys ob))"

fun obj_set :: "'v obj \<Rightarrow> string \<Rightarrow> 'v \<Rightarrow> 'v obj" where
  "obj_set [] k v = [(k, v)]"
| "obj_set ((k', v') # ps) k v =
     (if k' = k then (k, v) # ps else (k', v') # obj_set ps k v)"

definition objectPrototypeNames :: "string list" where
  "objectPrototypeNames =
     [''constructor'', ''__defineGetter__'', ''__defineSetter__'', ''hasOwnProperty'',
      ''__lookupGetter__'', ''__lookupSetter__'', ''isPrototypeOf'', ''propertyIsEnumerable'',
      ''toString'', ''valueOf'', ''__proto__'', ''toLocaleString'']"

text \<open>\<open>Object.assign(target, source)\<close>: every property of the source is assigned in turn.\<close>

definition Object_assign :: "'v obj \<Rightarrow> 'v obj \<Rightarrow> 'v obj" where
  "Object_assign target source = fold (\<lambda>(k, v) t. obj_set t k v) source target"

text \<open>The values that resolve functions receive and return.\<close>

datatype jsval = JUndefined | JString string | JObject "(string \<times> jsval) list"

text \<open>
  \<open>viewerName += usedViewerNames[type].length + 1\<close> appends the decimal numeral of a
  number to a string.
\<close>

definition digit_char :: "nat \<Rightarrow> char" where
  "digit_char d = char_of (48 + d)"

fun string_of_nat :: "nat \<Rightarrow> string" where
  "string_of_nat n =
     (if n < 10 then [digit_char n] else string_of_nat (n div 10) @ [digit_char (n mod 10)])"

declare string_of_nat.simps [simp del]

text \<open>Reading a decimal numeral back, the inverse of \<open>string_of_nat\<close>.\<close>

definition digit_val :: "char \<Rightarrow> nat" where
  "digit_val c = of_char c - 48"

definition nat_of_string :: "string \<Rightarrow> nat" where
  "nat_of_string s = foldl (\<lambda>a c. 10 * a + digit_val c) 0 s"

text \<open>\<open>String(scheme)\<close> of a possibly absent string.\<close>

definition String_of :: "string option \<Rightarrow> string" where
  "String_of s = (case s of None \<Rightarrow> ''undefined'' | Some x \<Rightarrow> x)"

subsection \<open>The data model\<close>

datatype error = TypeError

text \<open>
  The types of graphql-js in the arguments of a viewer: the string type, a non-null type,
  and a type that is known by its name, as \<open>getGraphQLType\<close> returns them.
\<close>

datatype gql_type =
    GraphQLString
  | GraphQLNonNull gql_type
  | GraphQLNamedType string

record SecuritySchemeObject =
  def_type :: string
  def_scheme :: "string option"

record Oas3 =
  info_title :: string

record 's ProcessedSecurityScheme =
  rawName :: string
  def :: SecuritySchemeObject
  parameters :: "string obj"
  schema :: 's
  oas :: Oas3

record Warning =
  typeKey :: string
  culprit :: string

text \<open>
  Of \<open>PreprocessingData\<close> the module reads \<open>security\<close> and hands \<open>saneMap\<close> to
  \<open>sanitizeAndStore\<close>; \<open>warnings\<close> is the report that \<open>handleWarning\<close> fills.
\<close>

record 's PreprocessingData =
  security :: "'s ProcessedSecurityScheme obj"
  saneMap :: "string obj"
  warnings :: "Warning list"

record 'f GraphQLObjectType =
  ot_name :: string
  ot_description :: string
  ot_fields :: "'f obj"

text \<open>
  A \<open>Viewer\<close>. The resolve function is a closure over \<open>data\<close>, an object that it
  shares with the rest of the program: it takes the state of \<open>data\<close> at the call and
  returns the state it leaves. An argument descriptor \<open>{ type: t }\<close> is its type \<open>t\<close>.
\<close>

record ('f, 's) Viewer =
  viewer_type :: "'f GraphQLObjectType"
  viewer_resolve ::
    "jsval \<Rightarrow> jsval \<Rightarrow> jsval \<Rightarrow> 's PreprocessingData \<Rightarrow> jsval \<times> 's PreprocessingData"
  viewer_args :: "gql_type obj"
  viewer_description :: string

subsection \<open>Collaborators outside the module\<close>

text \<open>
  \<open>Oas3Tools.sanitize\<close>, \<open>createDataDef\<close> and \<open>getGraphQLType\<close> are imported by the
  module; they are parameters \<open>sanitize\<close>, \<open>createDataDef\<close> and \<open>getGraphQLType\<close> of
  the functions below, and every general theorem holds for all of them. The last two
  are functions of what the module passes to them apart from \<open>data\<close> and \<open>oass\<close>: the
  name for the reference, the schema and the flag; what they record in \<open>data\<close> on their
  own account is not part of the model.
\<close>

text \<open>
  Modelled from the spec: \<open>Oas3Tools.sanitizeAndStore\<close> (module \<open>oas_3_tools\<close>), the
  sanitize-and-register operation: it normalizes a raw name into an identifier-safe form
  while recording the reverse mapping, from the safe name to the raw one, in the table.
\<close>

definition sanitizeAndStore ::
  "(string \<Rightarrow> string) \<Rightarrow> string \<Rightarrow> string obj \<Rightarrow> string \<times> string obj" where
  "sanitizeAndStore sanitize str mapping =
     (let clean = sanitize str in (clean, obj_set mapping clean str))"

text \<open>
  Modelled from the spec: \<open>handleWarning\<close> (module \<open>utils\<close>), the sink of non-fatal
  diagnostics: one call emits one warning and raises nothing.
\<close>

definition handleWarning ::
  "string \<Rightarrow> string \<Rightarrow> 's PreprocessingData \<Rightarrow> 's PreprocessingData" where
  "handleWarning tk c data =
     data\<lparr>warnings := warnings data @ [\<lparr>typeKey = tk, culprit = c\<rparr>]\<rparr>"

text \<open>
  Modelled from the spec: \<open>sortObject\<close> (module \<open>utils\<close>), the utility that sorts a
  mapping by key; strings are compared character by character, by character code.
\<close>

definition sortObject :: "'v obj \<Rightarrow> 'v obj" where
  "sortObject ob = sort_key fst ob"

subsection \<open>\<open>getViewerOT\<close>\<close>

definition quote :: "string \<Rightarrow> string" where
  "quote s = [CHR 0x27] @ s @ [CHR 0x27]"

definition getViewerOT ::
  "(string \<Rightarrow> string) \<Rightarrow> string \<Rightarrow> string \<Rightarrow> string \<Rightarrow> 'f obj \<Rightarrow>
   's PreprocessingData \<Rightarrow> Oas3 list \<Rightarrow> error + ('f, 's) Viewer" where
  "getViewerOT sanitize name protocolName type queryFields data oass =
     (case obj_get (security data) protocolName of
        None \<Rightarrow> Inl TypeError
      | Some scheme \<Rightarrow>
          let resolve = (\<lambda>root args ctx d.
                let (key, m) = sanitizeAndStore sanitize protocolName (saneMap d);
                    security = obj_set [] key args
                in (JObject [(''_openapiToGraphql'', JObject [(''security'', JObject security)])],
                    d\<lparr>saneMap := m\<rparr>));
              args = fold (\<lambda>parameterName a. obj_set a parameterName (GraphQLNonNull GraphQLString))
                       (obj_keys (parameters scheme)) [];
              typeDescription =
                (if length oass = 1
                 then ''A viewer for the security protocol: '' @ quote (rawName scheme)
                 else ''A viewer for the security protocol '' @ quote (rawName scheme) @ '' '' @
                      ''in '' @ info_title (oas scheme));
              description =
                (if length oass = 1
                 then ''A viewer that wraps all operations authenticated via '' @ type
                 else ''A viewer that wraps all operations authenticated via '' @ type @
                      [CHR 0x0A, CHR 0x0A] @
                      ''For the security scheme: '' @ info_title (oas scheme) @ '' '' @ protocolName)
          in Inr \<lparr>viewer_type =
                    \<lparr>ot_name = name, ot_description = typeDescription, ot_fields = queryFields\<rparr>,
                  viewer_resolve = resolve,
                  viewer_args = args,
                  viewer_description = description\<rparr>)"

subsection \<open>\<open>getViewerAnyAuthOT\<close>\<close>

text \<open>The body of the loop over \<open>data.security\<close>: one argument and one table entry.\<close>

definition anyAuthArg ::
  "(string \<Rightarrow> string) \<Rightarrow> (string \<Rightarrow> 's \<Rightarrow> bool \<Rightarrow> 'd) \<Rightarrow> ('d \<Rightarrow> bool \<Rightarrow> gql_type) \<Rightarrow>
   string \<times> 's ProcessedSecurityScheme \<Rightarrow> gql_type obj \<times> string obj \<Rightarrow> gql_type obj \<times> string obj" where
  "anyAuthArg sanitize createDataDef getGraphQLType entry acc =
     (let (protocolName, scheme) = entry;
          (args, table) = acc;
          def = createDataDef protocolName (schema scheme) True;
          type = getGraphQLType def True;
          (key, table') = sanitizeAndStore sanitize protocolName table
      in (obj_set args key type, table'))"

definition anyAuthResolve ::
  "jsval \<Rightarrow> jsval \<Rightarrow> jsval \<Rightarrow> 's PreprocessingData \<Rightarrow> jsval \<times> 's PreprocessingData" where
  "anyAuthResolve root args ctx d =
     (JObject [(''_openapiToGraphql'', JObject [(''security'', args)])], d)"

definition getViewerAnyAuthOT ::
  "(string \<Rightarrow> string) \<Rightarrow> (string \<Rightarrow> 's \<Rightarrow> bool \<Rightarrow> 'd) \<Rightarrow> ('d \<Rightarrow> bool \<Rightarrow> gql_type) \<Rightarrow>
   string \<Rightarrow> 'f obj \<Rightarrow> 's PreprocessingData \<Rightarrow> Oas3 list \<Rightarrow>
   ('f, 's) Viewer \<times> 's PreprocessingData" where
  "getViewerAnyAuthOT sanitize createDataDef getGraphQLType name queryFields data oass =
     (let (args0, table) =
            fold (anyAuthArg sanitize createDataDef getGraphQLType) (security data) ([], saneMap data);
          args = sortObject args0
      in (\<lparr>viewer_type =
             \<lparr>ot_name = name,
              ot_description = ''Warning: Not every request will work with this viewer type'',
              ot_fields = queryFields\<rparr>,
           viewer_resolve = anyAuthResolve,
           viewer_args = args,
           viewer_description =
             ''A viewer that wraps operations for all available '' @ ''authentication mechanisms''\<rparr>,
          data\<lparr>saneMap := table\<rparr>))"

subsection \<open>\<open>createAndLoadViewer\<close>\<close>

text \<open>The local variables of \<open>createAndLoadViewer\<close>, with \<open>data\<close>.\<close>

record ('f, 's) Locals =
  results :: "('f, 's) Viewer obj"
  usedViewerNames :: "string list obj"
  anyAuthFields :: "'f obj"
  loc_data :: "'s PreprocessingData"

text \<open>
  Lines 76 to 99: the type of the scheme, where \<open>http\<close> with the scheme \<open>basic\<close>
  becomes \<open>basicAuth\<close> and \<open>http\<close> with any other scheme is reported.
\<close>

definition viewerType ::
  "SecuritySchemeObject \<Rightarrow> 's PreprocessingData \<Rightarrow> string \<times> 's PreprocessingData" where
  "viewerType d data =
     (if def_type d = ''http''
      then (if def_scheme d = Some ''basic''
            then (''basicAuth'', data)
            else (def_type d,
                  handleWarning ''UNSUPPORTED_HTTP_AUTH_SCHEME'' (String_of (def_scheme d)) data))
      else (def_type d, data))"

text \<open>Lines 102 to 104: the name before the check against the names in use.\<close>

definition baseViewerName :: "(string \<Rightarrow> string) \<Rightarrow> bool \<Rightarrow> string \<Rightarrow> string" where
  "baseViewerName sanitize isMutation type =
     (if \<not> isMutation then sanitize (''viewer '' @ type)
      else sanitize (''mutation viewer '' @ type))"

text \<open>
  Lines 106 to 108, with the read \<open>usedViewerNames[type]\<close> of line 109: the list of the
  type is created when \<open>type in usedViewerNames\<close> is false. For a type that is the name
  of a member of \<open>Object.prototype\<close> it is true without a list: no list is created,
  \<open>usedViewerNames[type]\<close> is that member, and the call of its \<open>indexOf\<close>, which is
  \<open>undefined\<close>, raises a \<open>TypeError\<close>.
\<close>

definition initNames :: "string list obj \<Rightarrow> string \<Rightarrow> error + string list obj" where
  "initNames used type =
     (if obj_has used type then Inr used
      else if type \<in> set objectPrototypeNames then Inl TypeError
      else Inr (obj_set used type []))"

text \<open>
  Lines 109 to 112: a name found in the list of the type takes the length of the list
  plus one as a suffix, and the name is pushed. \<open>usedNames\<close> is the list of a type; it
  is empty for a type that has no list yet, as the list that \<open>initNames\<close> creates is.
\<close>

definition usedNames :: "string list obj \<Rightarrow> string \<Rightarrow> string list" where
  "usedNames used type = (case obj_get used type of None \<Rightarrow> [] | Some names \<Rightarrow> names)"

definition allocateName :: "string list obj \<Rightarrow> string \<Rightarrow> string \<Rightarrow> string \<times> string list obj" where
  "allocateName used type viewerName0 =
     (let names = usedNames used type;
          viewerName = (if viewerName0 \<in> set names
                        then viewerName0 @ string_of_nat (length names + 1)
                        else viewerName0)
      in (viewerName, obj_set used type (names @ [viewerName])))"

text \<open>The body of the loop over \<open>queryFields\<close>, lines 70 to 122.\<close>

definition loopBody ::
  "(string \<Rightarrow> string) \<Rightarrow> bool \<Rightarrow> Oas3 list \<Rightarrow> string \<times> 'f obj \<Rightarrow> ('f, 's) Locals \<Rightarrow>
   error + ('f, 's) Locals" where
  "loopBody sanitize isMutation oass entry st =
     (let (protocolName, protocolFields) = entry;
          anyAuthFields' = Object_assign (anyAuthFields st) protocolFields
      in case obj_get (security (loc_data st)) protocolName of
           None \<Rightarrow> Inl TypeError
         | Some scheme \<Rightarrow>
             let (type, data') = viewerType (def scheme) (loc_data st);
                 viewerName0 = baseViewerName sanitize isMutation type
             in case initNames (usedViewerNames st) type of
                  Inl e \<Rightarrow> Inl e
                | Inr used \<Rightarrow>
                    let (viewerName, used') = allocateName used type viewerName0
                    in case getViewerOT sanitize viewerName protocolName type protocolFields
                              data' oass of
                         Inl e \<Rightarrow> Inl e
                       | Inr viewer \<Rightarrow>
                           Inr \<lparr>results = obj_set (results st) viewerName viewer,
                                usedViewerNames = used',
                                anyAuthFields = anyAuthFields',
                                loc_data = data'\<rparr>)"

fun forIn ::
  "('e \<Rightarrow> 'a \<Rightarrow> error + 'a) \<Rightarrow> 'e list \<Rightarrow> 'a \<Rightarrow> error + 'a" where
  "forIn body [] st = Inr st"
| "forIn body (x # xs) st =
     (case body x st of Inl e \<Rightarrow> Inl e | Inr st' \<Rightarrow> forIn body xs st')"

definition initLocals :: "'s PreprocessingData \<Rightarrow> ('f, 's) Locals" where
  "initLocals data = \<lparr>results = [], usedViewerNames = [], anyAuthFields = [], loc_data = data\<rparr>"

definition anyAuthObjectName :: "bool \<Rightarrow> string" where
  "anyAuthObjectName isMutation = (if \<not> isMutation then ''viewerAnyAuth'' else ''mutationViewerAnyAuth'')"

definition createAndLoadViewer ::
  "(string \<Rightarrow> string) \<Rightarrow> (string \<Rightarrow> 's \<Rightarrow> bool \<Rightarrow> 'd) \<Rightarrow> ('d \<Rightarrow> bool \<Rightarrow> gql_type) \<Rightarrow>
   ('f obj) obj \<Rightarrow> 's PreprocessingData \<Rightarrow> bool \<Rightarrow> Oas3 list \<Rightarrow>
   error + (('f, 's) Viewer obj \<times> 's PreprocessingData)" where
  "createAndLoadViewer sanitize createDataDef getGraphQLType queryFields data isMutation oass =
     (case forIn (loopBody sanitize isMutation oass) queryFields (initLocals data) of
        Inl e \<Rightarrow> Inl e
      | Inr st \<Rightarrow>
          let (viewer, data') =
                getViewerAnyAuthOT sanitize createDataDef getGraphQLType
                  (anyAuthObjectName isMutation) (anyAuthFields st) (loc_data st) oass
          in Inr (obj_set (results st) (anyAuthObjectName isMutation) viewer, data'))"

subsection \<open>Notions of the statements\<close>

text \<open>
  The type under which a scheme is filed: what lines 76 to 99 leave in \<open>type\<close>, without
  the warning.
\<close>

definition schemeType :: "SecuritySchemeObject \<Rightarrow> string" where
  "schemeType d = (if def_type d = ''http'' \<and> def_scheme d = Some ''basic'' then ''basicAuth'' else def_type d)"

text \<open>The type under which \<open>createAndLoadViewer\<close> files a protocol of \<open>data.security\<close>.\<close>

definition protocolType :: "'s PreprocessingData \<Rightarrow> string \<Rightarrow> string option" where
  "protocolType data protocolName =
     (case obj_get (security data) protocolName of
        None \<Rightarrow> None
      | Some scheme \<Rightarrow> Some (fst (viewerType (def scheme) data)))"

text \<open>
  A well-formed entry of \<open>data.security\<close>: the protocol has a scheme, and the type of
  the scheme is one of the four types of a security scheme in OpenAPI 3. The types under
  which such schemes are filed are \<open>viewerKinds\<close>.
\<close>

definition securitySchemeTypes :: "string list" where
  "securitySchemeTypes = [''apiKey'', ''http'', ''oauth2'', ''openIdConnect'']"

definition viewerKinds :: "string list" where
  "viewerKinds = [''apiKey'', ''basicAuth'', ''http'', ''oauth2'', ''openIdConnect'']"

definition wellFormedEntry :: "'s PreprocessingData \<Rightarrow> string \<Rightarrow> bool" where
  "wellFormedEntry data protocolName =
     (case obj_get (security data) protocolName of
        None \<Rightarrow> False
      | Some scheme \<Rightarrow> def_type (def scheme) \<in> set securitySchemeTypes)"

text \<open>A protocol whose scheme is \<open>http\<close> with a sub-scheme other than \<open>basic\<close>.\<close>

definition unsupportedHttp :: "'s PreprocessingData \<Rightarrow> string \<Rightarrow> bool" where
  "unsupportedHttp data protocolName =
     (case obj_get (security data) protocolName of
        None \<Rightarrow> False
      | Some scheme \<Rightarrow> def_type (def scheme) = ''http'' \<and> def_scheme (def scheme) \<noteq> Some ''basic'')"

text \<open>
  The warnings that the loop of \<open>createAndLoadViewer\<close> emits for a list of protocols: one
  for each protocol whose scheme is \<open>http\<close> with a sub-scheme other than \<open>basic\<close>, with
  the sub-scheme as the culprit.
\<close>

definition httpWarnings :: "'s PreprocessingData \<Rightarrow> string list \<Rightarrow> Warning list" where
  "httpWarnings data protocolNames =
     concat (map (\<lambda>p. case obj_get (security data) p of
                         None \<Rightarrow> []
                       | Some scheme \<Rightarrow>
                           if def_type (def scheme) = ''http'' \<and> def_scheme (def scheme) \<noteq> Some ''basic''
                           then [\<lparr>typeKey = ''UNSUPPORTED_HTTP_AUTH_SCHEME'',
                                  culprit = String_of (def_scheme (def scheme))\<rparr>]
                           else [])
               protocolNames)"

text \<open>
  The names that one type hands out: the name itself first, then the name with the
  suffixes 2, 3 and so on. \<open>namesInv\<close> says that the list of every type holds these
  names in this order.
\<close>

definition nthName :: "string \<Rightarrow> nat \<Rightarrow> string" where
  "nthName base i = (if i = 0 then base else base @ string_of_nat (i + 1))"

definition namesInv :: "(string \<Rightarrow> string) \<Rightarrow> bool \<Rightarrow> string list obj \<Rightarrow> bool" where
  "namesInv sanitize isMutation used =
     (\<forall>t. usedNames used t =
            map (nthName (baseViewerName sanitize isMutation t)) [0..<length (usedNames used t)])"

text \<open>
  The loop of \<open>getViewerAnyAuthOT\<close> in two parts: the arguments that it collects, and the
  sanitize table that it leaves.
\<close>

definition securityArgs ::
  "(string \<Rightarrow> string) \<Rightarrow> (string \<Rightarrow> 's \<Rightarrow> bool \<Rightarrow> 'd) \<Rightarrow> ('d \<Rightarrow> bool \<Rightarrow> gql_type) \<Rightarrow>
   's ProcessedSecurityScheme obj \<Rightarrow> gql_type obj \<Rightarrow> gql_type obj" where
  "securityArgs sanitize createDataDef getGraphQLType sec args =
     fold (\<lambda>(protocolName, scheme) a.
             obj_set a (sanitize protocolName)
               (getGraphQLType (createDataDef protocolName (schema scheme) True) True))
       sec args"

definition securityTable :: "(string \<Rightarrow> string) \<Rightarrow> 's ProcessedSecurityScheme obj \<Rightarrow> string obj \<Rightarrow> string obj" where
  "securityTable sanitize sec table =
     fold (\<lambda>(protocolName, scheme) t. obj_set t (sanitize protocolName) protocolName) sec table"

text \<open>
  The names that the loop of \<open>createAndLoadViewer\<close> allocates, protocol by protocol:
  \<open>cnt t\<close> counts the protocols of the type \<open>t\<close> so far, and \<open>protocolTypes\<close> lists the
  types of the protocols in the order of \<open>queryFields\<close>.
\<close>

fun allocNames :: "(string \<Rightarrow> string) \<Rightarrow> bool \<Rightarrow> (string \<Rightarrow> nat) \<Rightarrow> string list \<Rightarrow> string list" where
  "allocNames sanitize isMutation cnt [] = []"
| "allocNames sanitize isMutation cnt (t # ts) =
     nthName (baseViewerName sanitize isMutation t) (cnt t) #
     allocNames sanitize isMutation (cnt(t := Suc (cnt t))) ts"

definition protocolTypes :: "'s PreprocessingData \<Rightarrow> string list \<Rightarrow> string list" where
  "protocolTypes data protocolNames =
     concat (map (\<lambda>p. case protocolType data p of None \<Rightarrow> [] | Some t \<Rightarrow> [t]) protocolNames)"

definition viewerNames ::
  "(string \<Rightarrow> string) \<Rightarrow> bool \<Rightarrow> 's PreprocessingData \<Rightarrow> ('f obj) obj \<Rightarrow> string list" where
  "viewerNames sanitize isMutation data queryFields =
     allocNames sanitize isMutation (\<lambda>t. 0) (protocolTypes data (obj_keys queryFields))"

text \<open>
  No name of one type is the beginning of the name of another type, or of the name of
  the AnyAuth viewer.
\<close>

definition prefixFree :: "(string \<Rightarrow> string) \<Rightarrow> bool \<Rightarrow> string list \<Rightarrow> bool" where
  "prefixFree sanitize isMutation types =
     ((\<forall>t \<in> set types. \<forall>t' \<in> set types. t \<noteq> t' \<longrightarrow>
         \<not> prefix (baseViewerName sanitize isMutation t) (baseViewerName sanitize isMutation t')) \<and>
      (\<forall>t \<in> set types.
         \<not> prefix (baseViewerName sanitize isMutation t) (anyAuthObjectName isMutation)))"

text \<open>
  A viewer whose resolve function is the one that \<open>getViewerOT\<close> builds for a protocol:
  it returns the arguments under the sanitized protocol name and leaves \<open>data\<close> with the
  entry of the protocol written into the sanitize table.
\<close>

definition resolvesProtocol :: "(string \<Rightarrow> string) \<Rightarrow> string \<Rightarrow> ('f, 's) Viewer \<Rightarrow> bool" where
  "resolvesProtocol sanitize protocolName v =
     (\<forall>root args ctx d.
        viewer_resolve v root args ctx d =
          (JObject [(''_openapiToGraphql'', JObject [(''security'',
             JObject [(sanitize protocolName, args)])])],
           d\<lparr>saneMap := obj_set (saneMap d) (sanitize protocolName) protocolName\<rparr>))"

text \<open>
  The sanitize table that a call of \<open>createAndLoadViewer\<close> leaves, and the table after
  one of the viewers of the result has then been resolved once.
\<close>

definition resultTable ::
  "error + (('f, 's) Viewer obj \<times> 's PreprocessingData) \<Rightarrow> error + string obj" where
  "resultTable r = (case r of Inl e \<Rightarrow> Inl e | Inr (res, data) \<Rightarrow> Inr (saneMap data))"

definition resolveTable ::
  "error + (('f, 's) Viewer obj \<times> 's PreprocessingData) \<Rightarrow> string \<Rightarrow> jsval \<Rightarrow> jsval \<Rightarrow> jsval \<Rightarrow>
   error + string obj" where
  "resolveTable r viewerName root args ctx =
     (case r of
        Inl e \<Rightarrow> Inl e
      | Inr (res, data) \<Rightarrow>
          (case obj_get res viewerName of
             None \<Rightarrow> Inl TypeError
           | Some v \<Rightarrow> Inr (saneMap (snd (viewer_resolve v root args ctx data)))))"

subsection \<open>Concrete inputs\<close>

text \<open>The characters of an identifier, and the upper case of a letter.\<close>

definition safeChars :: string where
  "safeChars = ''_abcdefghijklmnopqrstuvwxyzABCDEFGHIJKLMNOPQRSTUVWXYZ0123456789''"

definition toUpperCase :: "char \<Rightarrow> char" where
  "toUpperCase c =
     (case map_of (zip ''abcdefghijklmnopqrstuvwxyz'' ''ABCDEFGHIJKLMNOPQRSTUVWXYZ'') c of
        None \<Rightarrow> c | Some u \<Rightarrow> u)"

text \<open>
  Characters outside \<open>[_a-zA-Z0-9]\<close> are dropped, and the character after a dropped one
  is put in upper case.
\<close>

fun camelCase :: "bool \<Rightarrow> string \<Rightarrow> string" where
  "camelCase up [] = []"
| "camelCase up (c # cs) =
     (if c \<in> set safeChars
      then (if up then toUpperCase c else c) # camelCase False cs
      else camelCase True cs)"

text \<open>
  Modelled from the spec: \<open>Oas3Tools.sanitize\<close> (module \<open>oas_3_tools\<close>), of which the
  spec says that it turns a name into an identifier-safe form, and no more.
  \<open>sanitizeCamel\<close> is one such function, in the style of the fixed names
  \<open>viewerAnyAuth\<close> and \<open>mutationViewerAnyAuth\<close>: a character outside \<open>[_a-zA-Z0-9]\<close> is
  dropped and the character after it is put in upper case; a name that is empty or
  starts with a digit gets \<open>_\<close> in front. It serves to run the model on concrete inputs
  only: no general theorem depends on it.
\<close>

definition sanitizeCamel :: "string \<Rightarrow> string" where
  "sanitizeCamel str =
     (let clean = camelCase False str
      in if clean = [] \<or> hd clean \<in> set ''0123456789'' then ''_'' @ clean else clean)"

text \<open>Stand-ins for \<open>createDataDef\<close> and \<open>getGraphQLType\<close> on concrete inputs.\<close>

definition exCreateDataDef :: "string \<Rightarrow> string \<Rightarrow> bool \<Rightarrow> string" where
  "exCreateDataDef fromRef sch isInputObjectType = fromRef @ ''Input''"

definition exGetGraphQLType :: "string \<Rightarrow> bool \<Rightarrow> gql_type" where
  "exGetGraphQLType d isMutation = GraphQLNamedType d"

text \<open>
  An API with three security schemes: an API key, HTTP basic authentication and HTTP
  digest authentication, whose sub-scheme the module does not support.
\<close>

definition exOas :: Oas3 where
  "exOas = \<lparr>info_title = ''Example API''\<rparr>"

definition exApiKey :: "string ProcessedSecurityScheme" where
  "exApiKey =
     \<lparr>rawName = ''apiKeyAuth'',
      def = \<lparr>def_type = ''apiKey'', def_scheme = None\<rparr>,
      parameters = [(''apiKey'', ''apiKeyAuthApiKey'')],
      schema = ''apiKeyAuthSchema'',
      oas = exOas\<rparr>"

definition exBasic :: "string ProcessedSecurityScheme" where
  "exBasic =
     \<lparr>rawName = ''basicAuth'',
      def = \<lparr>def_type = ''http'', def_scheme = Some ''basic''\<rparr>,
      parameters = [(''username'', ''basicAuthUsername''), (''password'', ''basicAuthPassword'')],
      schema = ''basicAuthSchema'',
      oas = exOas\<rparr>"

definition exDigest :: "string ProcessedSecurityScheme" where
  "exDigest =
     \<lparr>rawName = ''digestAuth'',
      def = \<lparr>def_type = ''http'', def_scheme = Some ''digest''\<rparr>,
      parameters = [],
      schema = ''digestAuthSchema'',
      oas = exOas\<rparr>"

definition exData :: "string PreprocessingData" where
  "exData =
     \<lparr>security = [(''digestAuth'', exDigest), (''basicAuth'', exBasic), (''apiKeyAuth'', exApiKey)],
      saneMap = [],
      warnings = []\<rparr>"

definition exQueryFields :: "(string obj) obj" where
  "exQueryFields =
     [(''basicAuth'', [(''getUser'', ''getUserField'')]),
      (''apiKeyAuth'', [(''getPet'', ''getPetField''), (''getUser'', ''getUserByKeyField'')])]"

text \<open>Operations for each of the three schemes.\<close>

definition exAllQueryFields :: "(string obj) obj" where
  "exAllQueryFields =
     [(''basicAuth'', [(''getUser'', ''getUserField'')]),
      (''digestAuth'', [(''getSecret'', ''getSecretField'')]),
      (''apiKeyAuth'', [(''getPet'', ''getPetField''), (''getUser'', ''getUserByKeyField'')])]"

text \<open>The operations behind HTTP digest and HTTP basic authentication.\<close>

definition exDigestQueryFields :: "(string obj) obj" where
  "exDigestQueryFields =
     [(''digestAuth'', [(''getSecret'', ''getSecretField'')]),
      (''basicAuth'', [(''getUser'', ''getUserField'')])]"

text \<open>An API with three API keys.\<close>

definition exKey :: "string \<Rightarrow> string ProcessedSecurityScheme" where
  "exKey protocolName =
     \<lparr>rawName = protocolName,
      def = \<lparr>def_type = ''apiKey'', def_scheme = None\<rparr>,
      parameters = [(''apiKey'', protocolName @ ''ApiKey'')],
      schema = protocolName @ ''Schema'',
      oas = exOas\<rparr>"

definition exKeysData :: "string PreprocessingData" where
  "exKeysData =
     \<lparr>security = [(''appKey'', exKey ''appKey''), (''userKey'', exKey ''userKey''),
                  (''adminKey'', exKey ''adminKey'')],
      saneMap = [],
      warnings = []\<rparr>"

definition exKeysQueryFields :: "(string obj) obj" where
  "exKeysQueryFields =
     [(''appKey'', [(''getApp'', ''getAppField'')]),
      (''userKey'', [(''getUser'', ''getUserField'')]),
      (''adminKey'', [(''getAdmin'', ''getAdminField'')])]"

text \<open>An API with the two API keys \<open>my-key\<close> and \<open>my.key\<close>.\<close>

definition exDashData :: "string PreprocessingData" where
  "exDashData =
     \<lparr>security = [(''my-key'', exKey ''my-key''), (''my.key'', exKey ''my.key'')],
      saneMap = [],
      warnings = []\<rparr>"

definition exDashQueryFields :: "(string obj) obj" where
  "exDashQueryFields =
     [(''my-key'', [(''getMine'', ''getMineField'')]),
      (''my.key'', [(''getYours'', ''getYoursField'')])]"

section \<open>Properties\<close>

subsection \<open>Objects\<close>

lemma obj_keys_obj_set:
  "obj_keys (obj_set ob k v) = (if k \<in> set (obj_keys ob) then obj_keys ob else obj_keys ob @ [k])"
  by (induction ob) (force simp: obj_keys_def)+

lemma map_of_obj_set: "map_of (obj_set ob k v) = (map_of ob)(k \<mapsto> v)"
  by (induction ob) (auto simp: fun_eq_iff)

lemma obj_get_obj_set: "obj_get (obj_set ob k v) k' = (if k' = k then Some v else obj_get ob k')"
  by (simp add: obj_get_def map_of_obj_set)

lemma length_obj_set:
  "length (obj_set ob k v) = (if k \<in> set (obj_keys ob) then length ob else Suc (length ob))"
  by (induction ob) (force simp: obj_keys_def)+

lemma distinct_obj_set: "distinct (obj_keys ob) \<Longrightarrow> distinct (obj_keys (obj_set ob k v))"
  by (simp add: obj_keys_obj_set)

lemma obj_set_fresh: "k \<notin> set (obj_keys ob) \<Longrightarrow> obj_set ob k v = ob @ [(k, v)]"
  by (induction ob) (auto simp: obj_keys_def)

lemma fold_obj_set_fresh:
  "distinct (obj_keys acc @ ks) \<Longrightarrow>
   fold (\<lambda>k a. obj_set a k (f k)) ks acc = acc @ map (\<lambda>k. (k, f k)) ks"
proof (induction ks arbitrary: acc)
  case Nil
  then show ?case by simp
next
  case (Cons k ks)
  from Cons.prems have fresh: "k \<notin> set (obj_keys acc)" by auto
  have "distinct (obj_keys (acc @ [(k, f k)]) @ ks)"
    using Cons.prems by (auto simp: obj_keys_def)
  then show ?case
    using Cons.IH [of "acc @ [(k, f k)]"] fresh by (simp add: obj_set_fresh)
qed

lemma obj_keys_Nil [simp]: "obj_keys [] = []"
  by (simp add: obj_keys_def)

lemma obj_keys_Cons [simp]: "obj_keys ((k, v) # ob) = k # obj_keys ob"
  by (simp add: obj_keys_def)

lemma set_obj_keys_obj_set: "set (obj_keys (obj_set ob k v)) = insert k (set (obj_keys ob))"
  by (auto simp: obj_keys_obj_set)

lemma map_insort_key: "map f (insort_key f x xs) = insort (f x) (map f xs)"
  by (induction xs) simp_all

lemma obj_keys_sortObject: "obj_keys (sortObject ob) = sort (obj_keys ob)"
  unfolding sortObject_def obj_keys_def by (induction ob) (simp_all add: map_insort_key)

lemma obj_set_same: "obj_get ob k = Some v \<Longrightarrow> obj_set ob k v = ob"
  by (induction ob) (auto simp: obj_get_def split: if_splits)

lemma set_obj_set_subset: "set (obj_set ob k v) \<subseteq> insert (k, v) (set ob)"
  by (induction ob) (auto split: if_splits)

subsection \<open>Decimal numerals\<close>

lemma of_char_digit_char: "d < 10 \<Longrightarrow> of_char (digit_char d) = (48 + d :: nat)"
  by (simp add: digit_char_def)

lemma nat_of_string_snoc: "nat_of_string (s @ [c]) = 10 * nat_of_string s + digit_val c"
  by (simp add: nat_of_string_def)

lemma nat_of_string_of_nat: "nat_of_string (string_of_nat n) = n"
proof (induction n rule: string_of_nat.induct)
  case (1 n)
  show ?case
  proof (cases "n < 10")
    case True
    then show ?thesis
      by (simp add: string_of_nat.simps [of n] nat_of_string_def digit_val_def of_char_digit_char)
  next
    case False
    with 1 have "nat_of_string (string_of_nat (n div 10)) = n div 10" by simp
    with False show ?thesis
      by (simp add: string_of_nat.simps [of n] nat_of_string_snoc digit_val_def of_char_digit_char)
  qed
qed

lemma string_of_nat_inj: "string_of_nat m = string_of_nat n \<Longrightarrow> m = n"
  by (metis nat_of_string_of_nat)

lemma string_of_nat_not_Nil: "string_of_nat n \<noteq> []"
  by (subst string_of_nat.simps) simp

lemma nthName_0 [simp]: "nthName b 0 = b"
  by (simp add: nthName_def)

lemma nthName_inj: "nthName b i = nthName b j \<Longrightarrow> i = j"
  using string_of_nat_inj [of "i + 1" "j + 1"] string_of_nat_not_Nil
  by (auto simp: nthName_def split: if_splits)

lemma distinct_nthNames: "distinct (map (nthName b) [0..<n])"
  by (simp add: distinct_map inj_on_def) (metis nthName_inj)

lemma base_in_nthNames: "b \<in> set (map (nthName b) [0..<n]) \<longleftrightarrow> 0 < n"
proof
  assume "b \<in> set (map (nthName b) [0..<n])"
  then show "0 < n" by auto
next
  assume "0 < n"
  then have "nthName b 0 \<in> nthName b ` {0..<n}" by (intro imageI) simp
  then show "b \<in> set (map (nthName b) [0..<n])" by simp
qed

lemma prefix_nthName: "prefix b (nthName b k)"
  by (simp add: nthName_def)

lemma nthName_neq:
  assumes "\<not> prefix b b'" and "\<not> prefix b' b"
  shows "nthName b i \<noteq> nthName b' j"
proof
  assume "nthName b i = nthName b' j"
  then have "prefix b (nthName b' j)"
    using prefix_nthName [of b i] by simp
  with prefix_nthName [of b' j] have "prefix b b' \<or> prefix b' b"
    using prefix_same_cases by blast
  with assms show False by blast
qed

subsection \<open>The steps of \<open>createAndLoadViewer\<close>\<close>

lemma obj_has_iff: "obj_has ob k \<longleftrightarrow> (\<exists>v. obj_get ob k = Some v)"
  using map_of_eq_None_iff [of ob k] by (auto simp: obj_has_def obj_get_def obj_keys_def)

lemma fst_viewerType: "fst (viewerType d data) = schemeType d"
  by (simp add: viewerType_def schemeType_def)

lemma security_viewerType [simp]: "security (snd (viewerType d data)) = security data"
  by (simp add: viewerType_def handleWarning_def)

lemma saneMap_viewerType [simp]: "saneMap (snd (viewerType d data)) = saneMap data"
  by (simp add: viewerType_def handleWarning_def)

lemma warnings_viewerType:
  "warnings (snd (viewerType d data)) =
     (if def_type d = ''http'' \<and> def_scheme d \<noteq> Some ''basic''
      then warnings data @ [\<lparr>typeKey = ''UNSUPPORTED_HTTP_AUTH_SCHEME'', culprit = String_of (def_scheme d)\<rparr>]
      else warnings data)"
  by (simp add: viewerType_def handleWarning_def)

lemma protocolType_eq:
  "protocolType data p = map_option (\<lambda>s. schemeType (def s)) (obj_get (security data) p)"
  by (simp add: protocolType_def fst_viewerType split: option.splits)

lemma unsupportedHttp_cong:
  "security data' = security data \<Longrightarrow> unsupportedHttp data' = unsupportedHttp data"
  by (simp add: fun_eq_iff unsupportedHttp_def)

lemma getViewerOT_Inr:
  "obj_get (security data) protocolName = Some scheme \<Longrightarrow>
   \<exists>v. getViewerOT sanitize name protocolName type queryFields data oass = Inr v \<and>
       ot_name (viewer_type v) = name \<and> ot_fields (viewer_type v) = queryFields"
  by (simp add: getViewerOT_def Let_def)

lemma obj_set_obj_set: "obj_set (obj_set ob k v) k v' = obj_set ob k v'"
  by (induction ob) auto

lemma allocateName_initNames:
  assumes "initNames used t = Inr used1"
  shows "allocateName used1 t b = allocateName used t b"
proof (cases "obj_has used t")
  case True
  with assms show ?thesis by (simp add: initNames_def)
next
  case False
  with assms have used1: "used1 = obj_set used t []"
    by (simp add: initNames_def split: if_splits)
  from False have "obj_get used t = None"
    using obj_has_iff [of used t] by (cases "obj_get used t") auto
  then have "usedNames used t = []"
    by (simp add: usedNames_def)
  then show ?thesis
    by (simp add: allocateName_def used1 usedNames_def obj_get_obj_set obj_set_obj_set)
qed

lemma initNames_Inr:
  "t \<notin> set objectPrototypeNames \<Longrightarrow> \<exists>used1. initNames used t = Inr used1"
  by (simp add: initNames_def)

lemma loopBody_None:
  "obj_get (security (loc_data st)) protocolName = None \<Longrightarrow>
   loopBody sanitize isMutation oass (protocolName, protocolFields) st = Inl TypeError"
  by (simp add: loopBody_def)

lemma loopBody_Some:
  assumes "obj_get (security (loc_data st)) protocolName = Some scheme"
    and "initNames (usedViewerNames st) (schemeType (def scheme)) = Inr used1"
  shows "\<exists>viewer.
     getViewerOT sanitize
       (fst (allocateName (usedViewerNames st) (schemeType (def scheme))
              (baseViewerName sanitize isMutation (schemeType (def scheme)))))
       protocolName (schemeType (def scheme)) protocolFields
       (snd (viewerType (def scheme) (loc_data st))) oass = Inr viewer \<and>
     loopBody sanitize isMutation oass (protocolName, protocolFields) st =
       Inr \<lparr>results = obj_set (results st)
               (fst (allocateName (usedViewerNames st) (schemeType (def scheme))
                      (baseViewerName sanitize isMutation (schemeType (def scheme))))) viewer,
            usedViewerNames =
               snd (allocateName (usedViewerNames st) (schemeType (def scheme))
                      (baseViewerName sanitize isMutation (schemeType (def scheme)))),
            anyAuthFields = Object_assign (anyAuthFields st) protocolFields,
            loc_data = snd (viewerType (def scheme) (loc_data st))\<rparr>"
proof -
  let ?t = "schemeType (def scheme)"
  let ?d = "snd (viewerType (def scheme) (loc_data st))"
  let ?a = "allocateName (usedViewerNames st) ?t (baseViewerName sanitize isMutation ?t)"
  have a: "allocateName used1 ?t (baseViewerName sanitize isMutation ?t) = ?a"
    by (rule allocateName_initNames [OF assms(2)])
  have "obj_get (security ?d) protocolName = Some scheme"
    using assms(1) by simp
  from getViewerOT_Inr [OF this, of sanitize "fst ?a" ?t protocolFields oass]
  obtain viewer where v: "getViewerOT sanitize (fst ?a) protocolName ?t protocolFields ?d oass = Inr viewer"
    by blast
  have "loopBody sanitize isMutation oass (protocolName, protocolFields) st =
          Inr \<lparr>results = obj_set (results st) (fst ?a) viewer, usedViewerNames = snd ?a,
               anyAuthFields = Object_assign (anyAuthFields st) protocolFields, loc_data = ?d\<rparr>"
    using assms v a by (simp add: loopBody_def case_prod_beta fst_viewerType)
  with v show ?thesis by blast
qed

lemma loopBody_InrE:
  assumes "loopBody sanitize isMutation oass (protocolName, protocolFields) st = Inr st1"
  shows "\<exists>scheme used1.
           obj_get (security (loc_data st)) protocolName = Some scheme \<and>
           initNames (usedViewerNames st) (schemeType (def scheme)) = Inr used1"
proof (cases "obj_get (security (loc_data st)) protocolName")
  case None
  with assms show ?thesis by (simp add: loopBody_None)
next
  case (Some scheme)
  show ?thesis
  proof (cases "initNames (usedViewerNames st) (schemeType (def scheme))")
    case (Inl e)
    with assms Some show ?thesis
      by (simp add: loopBody_def case_prod_beta fst_viewerType)
  next
    case (Inr used1)
    with Some show ?thesis by blast
  qed
qed

lemma usedNames_obj_set:
  "usedNames (obj_set used t names) t' = (if t' = t then names else usedNames used t')"
  by (simp add: usedNames_def obj_get_obj_set)

lemma fst_allocateName:
  "fst (allocateName used t b) =
     (if b \<in> set (usedNames used t) then b @ string_of_nat (length (usedNames used t) + 1) else b)"
  by (simp add: allocateName_def Let_def)

lemma usedNames_allocateName:
  "usedNames (snd (allocateName used t b)) t' =
     (if t' = t then usedNames used t @ [fst (allocateName used t b)] else usedNames used t')"
  by (simp add: allocateName_def Let_def usedNames_obj_set)

lemma fst_allocateName_inv:
  assumes "namesInv sanitize isMutation used"
  shows "fst (allocateName used t (baseViewerName sanitize isMutation t)) =
           nthName (baseViewerName sanitize isMutation t) (length (usedNames used t))"
proof -
  let ?b = "baseViewerName sanitize isMutation t"
  let ?n = "length (usedNames used t)"
  from assms have eq: "usedNames used t = map (nthName ?b) [0..<?n]"
    unfolding namesInv_def by blast
  have "?b \<in> set (usedNames used t) \<longleftrightarrow> 0 < ?n"
    by (subst eq) (rule base_in_nthNames)
  then show ?thesis
    by (simp add: fst_allocateName nthName_def)
qed

lemma namesInv_allocateName:
  assumes "namesInv sanitize isMutation used"
  shows "namesInv sanitize isMutation (snd (allocateName used t (baseViewerName sanitize isMutation t)))"
  unfolding namesInv_def
proof
  fix t'
  let ?used' = "snd (allocateName used t (baseViewerName sanitize isMutation t))"
  let ?b = "baseViewerName sanitize isMutation t"
  show "usedNames ?used' t' =
          map (nthName (baseViewerName sanitize isMutation t')) [0..<length (usedNames ?used' t')]"
  proof (cases "t' = t")
    case True
    from assms have eq: "usedNames used t = map (nthName ?b) [0..<length (usedNames used t)]"
      unfolding namesInv_def by blast
    have "usedNames ?used' t = usedNames used t @ [nthName ?b (length (usedNames used t))]"
      by (simp add: usedNames_allocateName fst_allocateName_inv [OF assms])
    also have "\<dots> = map (nthName ?b) [0..<Suc (length (usedNames used t))]"
      using eq by simp
    finally show ?thesis using True by simp
  next
    case False
    with assms show ?thesis
      by (simp add: usedNames_allocateName namesInv_def)
  qed
qed

lemma namesInv_init: "namesInv sanitize isMutation []"
  by (simp add: namesInv_def usedNames_def obj_get_def)

subsection \<open>The loop of \<open>createAndLoadViewer\<close>\<close>

lemma wellFormedEntry_type:
  assumes "wellFormedEntry data p"
  shows "\<exists>scheme. obj_get (security data) p = Some scheme \<and>
           schemeType (def scheme) \<in> set viewerKinds \<and>
           schemeType (def scheme) \<notin> set objectPrototypeNames"
proof -
  from assms obtain scheme where sch: "obj_get (security data) p = Some scheme"
    and ty: "def_type (def scheme) \<in> set securitySchemeTypes"
    by (auto simp: wellFormedEntry_def split: option.splits)
  from ty have "schemeType (def scheme) \<in> set viewerKinds"
    by (auto simp: schemeType_def securitySchemeTypes_def viewerKinds_def)
  moreover have "set viewerKinds \<inter> set objectPrototypeNames = {}"
    by (simp add: viewerKinds_def objectPrototypeNames_def)
  ultimately show ?thesis using sch by blast
qed

lemma wellFormedEntry_cong:
  "security data' = security data \<Longrightarrow> wellFormedEntry data' = wellFormedEntry data"
  by (simp add: fun_eq_iff wellFormedEntry_def)

lemma getViewerOT_cong:
  "security data' = security data \<Longrightarrow>
   getViewerOT sanitize name protocolName type queryFields data' oass =
   getViewerOT sanitize name protocolName type queryFields data oass"
  by (simp add: getViewerOT_def)

lemma forIn_succeeds:
  assumes "\<forall>p \<in> set (obj_keys queryFields). wellFormedEntry (loc_data st) p"
  shows "\<exists>st'. forIn (loopBody sanitize isMutation oass) queryFields st = Inr st'"
  using assms
proof (induction queryFields arbitrary: st)
  case Nil
  then show ?case by simp
next
  case (Cons entry queryFields)
  obtain p fs where entry: "entry = (p, fs)" by (cases entry)
  from Cons.prems have "wellFormedEntry (loc_data st) p"
    by (simp add: entry)
  from wellFormedEntry_type [OF this] obtain scheme where
    sch: "obj_get (security (loc_data st)) p = Some scheme"
    and np: "schemeType (def scheme) \<notin> set objectPrototypeNames"
    by blast
  from initNames_Inr [OF np] obtain used1 where
    ini: "initNames (usedViewerNames st) (schemeType (def scheme)) = Inr used1"
    by blast
  from loopBody_Some [OF sch ini, of sanitize isMutation fs oass]
  obtain st1 where step: "loopBody sanitize isMutation oass (p, fs) st = Inr st1"
    and data1: "loc_data st1 = snd (viewerType (def scheme) (loc_data st))"
    by auto
  have "security (loc_data st1) = security (loc_data st)"
    by (simp add: data1)
  then have "wellFormedEntry (loc_data st1) = wellFormedEntry (loc_data st)"
    by (rule wellFormedEntry_cong)
  then have "\<forall>p \<in> set (obj_keys queryFields). wellFormedEntry (loc_data st1) p"
    using Cons.prems by (simp add: entry)
  from Cons.IH [OF this] obtain st' where
    "forIn (loopBody sanitize isMutation oass) queryFields st1 = Inr st'" by blast
  with step show ?case by (simp add: entry)
qed

lemma forIn_usedNames:
  assumes "forIn (loopBody sanitize isMutation oass) queryFields st = Inr st'"
    and "namesInv sanitize isMutation (usedViewerNames st)"
  shows "namesInv sanitize isMutation (usedViewerNames st') \<and>
         security (loc_data st') = security (loc_data st) \<and>
         (\<forall>t. length (usedNames (usedViewerNames st') t) =
               length (usedNames (usedViewerNames st) t) +
               length (filter (\<lambda>p. protocolType (loc_data st) p = Some t) (obj_keys queryFields)))"
  using assms
proof (induction queryFields arbitrary: st)
  case Nil
  then show ?case by (simp add: obj_keys_def)
next
  case (Cons entry queryFields)
  obtain p fs where entry: "entry = (p, fs)" by (cases entry)
  from Cons.prems(1) obtain st1 where
    step: "loopBody sanitize isMutation oass (p, fs) st = Inr st1" and
    rest: "forIn (loopBody sanitize isMutation oass) queryFields st1 = Inr st'"
    by (auto simp: entry split: sum.splits)
  from loopBody_InrE [OF step] obtain scheme used1 where
    sch: "obj_get (security (loc_data st)) p = Some scheme" and
    ini: "initNames (usedViewerNames st) (schemeType (def scheme)) = Inr used1"
    by blast
  let ?t = "schemeType (def scheme)"
  from loopBody_Some [OF sch ini, of sanitize isMutation fs oass] step
  have used1: "usedViewerNames st1 =
                 snd (allocateName (usedViewerNames st) ?t (baseViewerName sanitize isMutation ?t))"
    and data1: "loc_data st1 = snd (viewerType (def scheme) (loc_data st))"
    by auto
  have inv1: "namesInv sanitize isMutation (usedViewerNames st1)"
    unfolding used1 by (rule namesInv_allocateName [OF Cons.prems(2)])
  have sec1: "security (loc_data st1) = security (loc_data st)"
    by (simp add: data1)
  have pt: "protocolType (loc_data st1) = protocolType (loc_data st)"
    by (simp add: fun_eq_iff protocolType_eq sec1)
  have ptp: "protocolType (loc_data st) p = Some ?t"
    by (simp add: protocolType_eq sch)
  from Cons.IH [OF rest inv1] show ?case
    by (auto simp: sec1 pt ptp used1 usedNames_allocateName obj_keys_def entry)
qed

lemma forIn_warnings:
  assumes "forIn (loopBody sanitize isMutation oass) queryFields st = Inr st'"
  shows "\<exists>ws. warnings (loc_data st') = warnings (loc_data st) @ ws \<and>
           length ws = length (filter (unsupportedHttp (loc_data st)) (obj_keys queryFields)) \<and>
           (\<forall>w \<in> set ws. typeKey w = ''UNSUPPORTED_HTTP_AUTH_SCHEME'') \<and>
           saneMap (loc_data st') = saneMap (loc_data st) \<and>
           security (loc_data st') = security (loc_data st)"
  using assms
proof (induction queryFields arbitrary: st)
  case Nil
  then show ?case by (simp add: obj_keys_def)
next
  case (Cons entry queryFields)
  obtain p fs where entry: "entry = (p, fs)" by (cases entry)
  from Cons.prems(1) obtain st1 where
    step: "loopBody sanitize isMutation oass (p, fs) st = Inr st1" and
    rest: "forIn (loopBody sanitize isMutation oass) queryFields st1 = Inr st'"
    by (auto simp: entry split: sum.splits)
  from loopBody_InrE [OF step] obtain scheme used1 where
    sch: "obj_get (security (loc_data st)) p = Some scheme" and
    ini: "initNames (usedViewerNames st) (schemeType (def scheme)) = Inr used1"
    by blast
  from loopBody_Some [OF sch ini, of sanitize isMutation fs oass] step
  have data1: "loc_data st1 = snd (viewerType (def scheme) (loc_data st))"
    by auto
  have sec1: "security (loc_data st1) = security (loc_data st)"
    by (simp add: data1)
  have sm1: "saneMap (loc_data st1) = saneMap (loc_data st)"
    by (simp add: data1)
  have uh: "unsupportedHttp (loc_data st1) = unsupportedHttp (loc_data st)"
    by (rule unsupportedHttp_cong [OF sec1])
  from Cons.IH [OF rest] obtain ws where
    ws: "warnings (loc_data st') = warnings (loc_data st1) @ ws"
    and len: "length ws = length (filter (unsupportedHttp (loc_data st)) (obj_keys queryFields))"
    and tk: "\<forall>w \<in> set ws. typeKey w = ''UNSUPPORTED_HTTP_AUTH_SCHEME''"
    and sm: "saneMap (loc_data st') = saneMap (loc_data st1)"
    and sec: "security (loc_data st') = security (loc_data st1)"
    unfolding uh by blast
  let ?w = "\<lparr>typeKey = ''UNSUPPORTED_HTTP_AUTH_SCHEME'', culprit = String_of (def_scheme (def scheme))\<rparr>"
  show ?case
  proof (cases "unsupportedHttp (loc_data st) p")
    case True
    then have w1: "warnings (loc_data st1) = warnings (loc_data st) @ [?w]"
      using sch by (simp add: data1 warnings_viewerType unsupportedHttp_def)
    show ?thesis
      using True len tk
      by (intro exI [of _ "?w # ws"])
         (simp add: entry obj_keys_def ws w1 sm sm1 sec sec1)
  next
    case False
    then have w1: "warnings (loc_data st1) = warnings (loc_data st)"
      using sch by (auto simp add: data1 warnings_viewerType unsupportedHttp_def)
    show ?thesis
      using False len tk
      by (intro exI [of _ ws])
         (simp add: entry obj_keys_def ws w1 sm sm1 sec sec1)
  qed
qed

lemma httpWarnings_cong:
  "security data' = security data \<Longrightarrow> httpWarnings data' = httpWarnings data"
  by (simp add: fun_eq_iff httpWarnings_def)

lemma length_httpWarnings:
  "length (httpWarnings data ps) = length (filter (unsupportedHttp data) ps)"
  by (induction ps) (auto simp: httpWarnings_def unsupportedHttp_def split: option.splits)

lemma forIn_warnings_exact:
  assumes "forIn (loopBody sanitize isMutation oass) queryFields st = Inr st'"
  shows "warnings (loc_data st') =
           warnings (loc_data st) @ httpWarnings (loc_data st) (obj_keys queryFields)"
  using assms
proof (induction queryFields arbitrary: st)
  case Nil
  then show ?case by (simp add: httpWarnings_def)
next
  case (Cons entry queryFields)
  obtain p fs where entry: "entry = (p, fs)" by (cases entry)
  from Cons.prems(1) obtain st1 where
    step: "loopBody sanitize isMutation oass (p, fs) st = Inr st1" and
    rest: "forIn (loopBody sanitize isMutation oass) queryFields st1 = Inr st'"
    by (auto simp: entry split: sum.splits)
  from loopBody_InrE [OF step] obtain scheme used1 where
    sch: "obj_get (security (loc_data st)) p = Some scheme" and
    ini: "initNames (usedViewerNames st) (schemeType (def scheme)) = Inr used1"
    by blast
  from loopBody_Some [OF sch ini, of sanitize isMutation fs oass] step
  have data1: "loc_data st1 = snd (viewerType (def scheme) (loc_data st))"
    by auto
  have sec1: "security (loc_data st1) = security (loc_data st)"
    by (simp add: data1)
  have w1: "warnings (loc_data st1) = warnings (loc_data st) @ httpWarnings (loc_data st) [p]"
    using sch by (simp add: data1 warnings_viewerType httpWarnings_def)
  have hw: "httpWarnings (loc_data st1) = httpWarnings (loc_data st)"
    by (rule httpWarnings_cong [OF sec1])
  have "warnings (loc_data st') =
          warnings (loc_data st1) @ httpWarnings (loc_data st) (obj_keys queryFields)"
    using Cons.IH [OF rest] unfolding hw .
  moreover have "httpWarnings (loc_data st) (obj_keys (entry # queryFields)) =
        httpWarnings (loc_data st) [p] @ httpWarnings (loc_data st) (obj_keys queryFields)"
    by (simp add: entry httpWarnings_def)
  ultimately show ?case
    unfolding w1 by simp
qed

lemma warnings_getViewerAnyAuthOT [simp]:
  "warnings (snd (getViewerAnyAuthOT sanitize createDataDef getGraphQLType name queryFields data oass)) =
     warnings data"
  by (simp add: getViewerAnyAuthOT_def Let_def case_prod_beta)

lemma security_getViewerAnyAuthOT [simp]:
  "security (snd (getViewerAnyAuthOT sanitize createDataDef getGraphQLType name queryFields data oass)) =
     security data"
  by (simp add: getViewerAnyAuthOT_def Let_def case_prod_beta)

lemma createAndLoadViewer_Inr:
  assumes "forIn (loopBody sanitize isMutation oass) queryFields (initLocals data) = Inr st"
  shows "createAndLoadViewer sanitize createDataDef getGraphQLType queryFields data isMutation oass =
           Inr (obj_set (results st) (anyAuthObjectName isMutation)
                  (fst (getViewerAnyAuthOT sanitize createDataDef getGraphQLType
                         (anyAuthObjectName isMutation) (anyAuthFields st) (loc_data st) oass)),
                snd (getViewerAnyAuthOT sanitize createDataDef getGraphQLType
                         (anyAuthObjectName isMutation) (anyAuthFields st) (loc_data st) oass))"
  using assms by (simp add: createAndLoadViewer_def case_prod_beta)

lemma createAndLoadViewer_Inl:
  assumes "forIn (loopBody sanitize isMutation oass) queryFields (initLocals data) = Inl e"
  shows "createAndLoadViewer sanitize createDataDef getGraphQLType queryFields data isMutation oass = Inl e"
  using assms by (simp add: createAndLoadViewer_def)

lemma length_allocNames [simp]: "length (allocNames sanitize isMutation cnt ts) = length ts"
  by (induction ts arbitrary: cnt) simp_all

lemma allocNames_form:
  "x \<in> set (allocNames sanitize isMutation cnt ts) \<Longrightarrow>
   \<exists>t k. t \<in> set ts \<and> cnt t \<le> k \<and> x = nthName (baseViewerName sanitize isMutation t) k"
proof (induction ts arbitrary: cnt)
  case Nil
  then show ?case by simp
next
  case (Cons t ts)
  show ?case
  proof (cases "x = nthName (baseViewerName sanitize isMutation t) (cnt t)")
    case True
    then show ?thesis by (intro exI [of _ t] exI [of _ "cnt t"]) simp
  next
    case False
    with Cons.prems have "x \<in> set (allocNames sanitize isMutation (cnt(t := Suc (cnt t))) ts)"
      by simp
    from Cons.IH [OF this] obtain t' k where
      t': "t' \<in> set ts" and k: "(cnt(t := Suc (cnt t))) t' \<le> k"
      and x: "x = nthName (baseViewerName sanitize isMutation t') k"
      by blast
    from k have "cnt t' \<le> k" by (simp split: if_splits)
    with t' x show ?thesis by (intro exI [of _ t'] exI [of _ k]) simp
  qed
qed

lemma distinct_allocNames:
  assumes "prefixFree sanitize isMutation ts"
  shows "distinct (allocNames sanitize isMutation cnt ts @ [anyAuthObjectName isMutation])"
proof -
  have sep: "nthName (baseViewerName sanitize isMutation t) i \<noteq>
             nthName (baseViewerName sanitize isMutation t') j"
    if "t \<in> set ts" "t' \<in> set ts" "t \<noteq> t'" for t t' i j
    using assms that by (intro nthName_neq) (auto simp: prefixFree_def)
  have any: "anyAuthObjectName isMutation \<notin> set (allocNames sanitize isMutation cnt us)"
    if "set us \<subseteq> set ts" for us cnt
  proof
    assume "anyAuthObjectName isMutation \<in> set (allocNames sanitize isMutation cnt us)"
    from allocNames_form [OF this] obtain t k where "t \<in> set us"
      and "anyAuthObjectName isMutation = nthName (baseViewerName sanitize isMutation t) k"
      by blast
    with that assms prefix_nthName [of "baseViewerName sanitize isMutation t" k]
    show False by (auto simp: prefixFree_def)
  qed
  have "distinct (allocNames sanitize isMutation cnt us)" if "set us \<subseteq> set ts" for us cnt
    using that
  proof (induction us arbitrary: cnt)
    case Nil
    then show ?case by simp
  next
    case (Cons t us)
    let ?cnt = "cnt(t := Suc (cnt t))"
    have "nthName (baseViewerName sanitize isMutation t) (cnt t) \<notin>
            set (allocNames sanitize isMutation ?cnt us)"
    proof
      assume "nthName (baseViewerName sanitize isMutation t) (cnt t) \<in>
                set (allocNames sanitize isMutation ?cnt us)"
      from allocNames_form [OF this] obtain t' k where t': "t' \<in> set us" and k: "?cnt t' \<le> k"
        and eq: "nthName (baseViewerName sanitize isMutation t) (cnt t) =
                 nthName (baseViewerName sanitize isMutation t') k"
        by blast
      show False
      proof (cases "t' = t")
        case True
        with eq have "cnt t = k" by (auto dest: nthName_inj)
        with k True show False by simp
      next
        case False
        with sep [of t t' "cnt t" k] t' Cons.prems eq show False by auto
      qed
    qed
    with Cons show ?case by simp
  qed
  with any [of ts cnt] show ?thesis by simp
qed

lemma length_protocolTypes:
  "\<forall>p \<in> set ps. obj_has (security data) p \<Longrightarrow> length (protocolTypes data ps) = length ps"
  by (induction ps) (auto simp: protocolTypes_def protocolType_def obj_has_iff)

lemma forIn_results_exact:
  assumes "forIn (loopBody sanitize isMutation oass) queryFields st = Inr st'"
    and "namesInv sanitize isMutation (usedViewerNames st)"
    and "distinct (obj_keys (results st) @
           allocNames sanitize isMutation (\<lambda>t. length (usedNames (usedViewerNames st) t))
             (protocolTypes (loc_data st) (obj_keys queryFields)))"
  shows "\<exists>vs. results st' = results st @ vs \<and>
           obj_keys vs =
             allocNames sanitize isMutation (\<lambda>t. length (usedNames (usedViewerNames st) t))
               (protocolTypes (loc_data st) (obj_keys queryFields)) \<and>
           list_all2
             (\<lambda>(p, fs) (n, v). \<exists>t. protocolType (loc_data st) p = Some t \<and>
                getViewerOT sanitize n p t fs (loc_data st) oass = Inr v)
             queryFields vs"
  using assms
proof (induction queryFields arbitrary: st)
  case Nil
  then show ?case by (simp add: protocolTypes_def)
next
  case (Cons entry queryFields)
  obtain p fs where entry: "entry = (p, fs)" by (cases entry)
  from Cons.prems(1) obtain st1 where
    step: "loopBody sanitize isMutation oass (p, fs) st = Inr st1" and
    rest: "forIn (loopBody sanitize isMutation oass) queryFields st1 = Inr st'"
    by (auto simp: entry split: sum.splits)
  from loopBody_InrE [OF step] obtain scheme used1 where
    sch: "obj_get (security (loc_data st)) p = Some scheme" and
    ini: "initNames (usedViewerNames st) (schemeType (def scheme)) = Inr used1"
    by blast
  let ?t = "schemeType (def scheme)"
  let ?b = "baseViewerName sanitize isMutation ?t"
  let ?cnt = "\<lambda>t. length (usedNames (usedViewerNames st) t)"
  let ?n = "nthName ?b (?cnt ?t)"
  have name: "fst (allocateName (usedViewerNames st) ?t ?b) = ?n"
    by (rule fst_allocateName_inv [OF Cons.prems(2)])
  from loopBody_Some [OF sch ini, of sanitize isMutation fs oass] step
  obtain viewer where
    v: "getViewerOT sanitize ?n p ?t fs (snd (viewerType (def scheme) (loc_data st))) oass = Inr viewer"
    and res1: "results st1 = obj_set (results st) ?n viewer"
    and used1: "usedViewerNames st1 = snd (allocateName (usedViewerNames st) ?t ?b)"
    and data1: "loc_data st1 = snd (viewerType (def scheme) (loc_data st))"
    unfolding name by auto
  have inv1: "namesInv sanitize isMutation (usedViewerNames st1)"
    unfolding used1 by (rule namesInv_allocateName [OF Cons.prems(2)])
  have sec1: "security (loc_data st1) = security (loc_data st)"
    by (simp add: data1)
  have pt: "protocolType (loc_data st1) = protocolType (loc_data st)"
    by (simp add: fun_eq_iff protocolType_eq sec1)
  have ptp: "protocolType (loc_data st) p = Some ?t"
    by (simp add: protocolType_eq sch)
  have types: "protocolTypes (loc_data st) (obj_keys (entry # queryFields)) =
                 ?t # protocolTypes (loc_data st1) (obj_keys queryFields)"
    by (simp add: protocolTypes_def entry ptp pt)
  have cnt1: "(\<lambda>t. length (usedNames (usedViewerNames st1) t)) = ?cnt(?t := Suc (?cnt ?t))"
    by (simp add: fun_eq_iff used1 usedNames_allocateName)
  let ?rest = "allocNames sanitize isMutation (?cnt(?t := Suc (?cnt ?t)))
                 (protocolTypes (loc_data st1) (obj_keys queryFields))"
  from Cons.prems(3) have d: "distinct (obj_keys (results st) @ ?n # ?rest)"
    unfolding types by simp
  then have fresh: "?n \<notin> set (obj_keys (results st))"
    by auto
  have res1': "results st1 = results st @ [(?n, viewer)]"
    unfolding res1 by (rule obj_set_fresh [OF fresh])
  have d1: "distinct (obj_keys (results st1) @
              allocNames sanitize isMutation (\<lambda>t. length (usedNames (usedViewerNames st1) t))
                (protocolTypes (loc_data st1) (obj_keys queryFields)))"
    unfolding cnt1 res1' using d by (simp add: obj_keys_def)
  from Cons.IH [OF rest inv1 d1] obtain vs where
    vs: "results st' = results st1 @ vs"
    and keys: "obj_keys vs = ?rest"
    and all: "list_all2
             (\<lambda>(p, fs) (n, v). \<exists>t. protocolType (loc_data st1) p = Some t \<and>
                getViewerOT sanitize n p t fs (loc_data st1) oass = Inr v)
             queryFields vs"
    unfolding cnt1 by blast
  have "getViewerOT sanitize ?n p ?t fs (snd (viewerType (def scheme) (loc_data st))) oass =
        getViewerOT sanitize ?n p ?t fs (loc_data st) oass"
    by (rule getViewerOT_cong) simp
  with v have v': "getViewerOT sanitize ?n p ?t fs (loc_data st) oass = Inr viewer"
    by simp
  have all': "list_all2
             (\<lambda>(p, fs) (n, v). \<exists>t. protocolType (loc_data st) p = Some t \<and>
                getViewerOT sanitize n p t fs (loc_data st) oass = Inr v)
             queryFields vs"
    using all unfolding pt by (simp add: getViewerOT_cong [OF sec1])
  show ?case
    unfolding types
    using vs keys all' v' ptp
    by (intro exI [of _ "(?n, viewer) # vs"]) (simp add: res1' entry)
qed

lemma prefixFree_mono:
  "prefixFree sanitize isMutation ts' \<Longrightarrow> set ts \<subseteq> set ts' \<Longrightarrow> prefixFree sanitize isMutation ts"
  unfolding prefixFree_def by blast

lemma prefixFree_sanitizeCamel: "prefixFree sanitizeCamel isMutation viewerKinds"
proof (cases isMutation)
  case True
  have "prefixFree sanitizeCamel True viewerKinds" by code_simp
  with True show ?thesis by simp
next
  case False
  have "prefixFree sanitizeCamel False viewerKinds" by code_simp
  with False show ?thesis by simp
qed

lemma set_protocolTypes:
  "\<forall>p \<in> set ps. wellFormedEntry data p \<Longrightarrow> set (protocolTypes data ps) \<subseteq> set viewerKinds"
proof (induction ps)
  case Nil
  then show ?case by (simp add: protocolTypes_def)
next
  case (Cons p ps)
  from Cons.prems have "wellFormedEntry data p" by simp
  from wellFormedEntry_type [OF this] obtain scheme where
    "obj_get (security data) p = Some scheme" "schemeType (def scheme) \<in> set viewerKinds"
    by blast
  then have "protocolType data p = Some (schemeType (def scheme))"
    by (simp add: protocolType_eq)
  with Cons \<open>schemeType (def scheme) \<in> set viewerKinds\<close> show ?case
    by (simp add: protocolTypes_def)
qed

lemma loop_exact:
  fixes data :: "'s PreprocessingData" and queryFields :: "('f obj) obj"
  assumes wf: "\<forall>p \<in> set (obj_keys queryFields). wellFormedEntry data p"
    and pf: "prefixFree sanitize isMutation viewerKinds"
  shows "\<exists>st :: ('f, 's) Locals.
           forIn (loopBody sanitize isMutation oass) queryFields (initLocals data) = Inr st \<and>
           obj_keys (results st) = viewerNames sanitize isMutation data queryFields \<and>
           distinct (viewerNames sanitize isMutation data queryFields @
                     [anyAuthObjectName isMutation]) \<and>
           list_all2
             (\<lambda>(p, fs) (n, v). \<exists>t. protocolType data p = Some t \<and>
                getViewerOT sanitize n p t fs data oass = Inr v)
             queryFields (results st)"
proof -
  let ?init = "initLocals data :: ('f, 's) Locals"
  have "\<forall>p \<in> set (obj_keys queryFields). wellFormedEntry (loc_data ?init) p"
    using wf by (simp add: initLocals_def)
  from forIn_succeeds [OF this] obtain st :: "('f, 's) Locals" where
    run: "forIn (loopBody sanitize isMutation oass) queryFields ?init = Inr st"
    by blast
  have inv: "namesInv sanitize isMutation (usedViewerNames ?init)"
    by (simp add: initLocals_def namesInv_init)
  have "prefixFree sanitize isMutation (protocolTypes data (obj_keys queryFields))"
    by (rule prefixFree_mono [OF pf set_protocolTypes [OF wf]])
  then have d: "distinct (viewerNames sanitize isMutation data queryFields @
                  [anyAuthObjectName isMutation])"
    unfolding viewerNames_def by (rule distinct_allocNames)
  have cnt: "(\<lambda>t. length (usedNames (usedViewerNames ?init) t)) = (\<lambda>t. 0)"
    by (simp add: initLocals_def usedNames_def obj_get_def)
  have "distinct (obj_keys (results ?init) @
           allocNames sanitize isMutation (\<lambda>t. length (usedNames (usedViewerNames ?init) t))
             (protocolTypes (loc_data ?init) (obj_keys queryFields)))"
    unfolding cnt using d by (simp add: initLocals_def viewerNames_def)
  from forIn_results_exact [OF run inv this] obtain vs where
    "results st = results ?init @ vs"
    "obj_keys vs = allocNames sanitize isMutation (\<lambda>t. length (usedNames (usedViewerNames ?init) t))
               (protocolTypes (loc_data ?init) (obj_keys queryFields))"
    "list_all2
             (\<lambda>(p, fs) (n, v). \<exists>t. protocolType (loc_data ?init) p = Some t \<and>
                getViewerOT sanitize n p t fs (loc_data ?init) oass = Inr v)
             queryFields vs"
    by blast
  then have "obj_keys (results st) = viewerNames sanitize isMutation data queryFields"
    and "list_all2
             (\<lambda>(p, fs) (n, v). \<exists>t. protocolType data p = Some t \<and>
                getViewerOT sanitize n p t fs data oass = Inr v)
             queryFields (results st)"
    unfolding cnt by (simp_all add: initLocals_def viewerNames_def)
  with run d show ?thesis by blast
qed

lemma viewer_count_aux:
  fixes data :: "'s PreprocessingData" and queryFields :: "('f obj) obj"
  assumes wf: "\<forall>p \<in> set (obj_keys queryFields). wellFormedEntry data p"
    and pf: "prefixFree sanitize isMutation viewerKinds"
  shows "\<exists>(res :: ('f, 's) Viewer obj) data'.
           createAndLoadViewer sanitize createDataDef getGraphQLType queryFields data isMutation oass =
             Inr (res, data') \<and>
           length res = length queryFields + 1 \<and>
           distinct (obj_keys res) \<and>
           obj_keys res =
             viewerNames sanitize isMutation data queryFields @ [anyAuthObjectName isMutation] \<and>
           anyAuthObjectName isMutation \<notin> set (viewerNames sanitize isMutation data queryFields)"
proof -
  let ?names = "viewerNames sanitize isMutation data queryFields"
  let ?any = "anyAuthObjectName isMutation"
  from loop_exact [OF wf pf, of oass] obtain st :: "('f, 's) Locals" where
    run: "forIn (loopBody sanitize isMutation oass) queryFields (initLocals data) = Inr st"
    and keys: "obj_keys (results st) = ?names"
    and d: "distinct (?names @ [?any])"
    by blast
  let ?v = "fst (getViewerAnyAuthOT sanitize createDataDef getGraphQLType ?any
                  (anyAuthFields st) (loc_data st) oass)"
  have fresh: "?any \<notin> set (obj_keys (results st))"
    using d keys by simp
  have res: "obj_set (results st) ?any ?v = results st @ [(?any, ?v)]"
    by (rule obj_set_fresh [OF fresh])
  have len: "length ?names = length queryFields"
    using length_protocolTypes [of "obj_keys queryFields" data] wf wellFormedEntry_type
    by (simp add: viewerNames_def obj_keys_def obj_has_iff) blast
  have "length (results st) = length queryFields"
    using keys len by (metis length_map obj_keys_def)
  then show ?thesis
    using d keys by (simp add: createAndLoadViewer_Inr [OF run] res obj_keys_def)
qed

subsection \<open>The loop of \<open>getViewerAnyAuthOT\<close>\<close>

lemma fold_anyAuthArg:
  "fold (anyAuthArg sanitize createDataDef getGraphQLType) sec (args, table) =
     (securityArgs sanitize createDataDef getGraphQLType sec args, securityTable sanitize sec table)"
  by (induction sec arbitrary: args table)
     (auto simp: anyAuthArg_def securityArgs_def securityTable_def sanitizeAndStore_def Let_def)

lemma set_keys_securityArgs:
  "set (obj_keys (securityArgs sanitize createDataDef getGraphQLType sec args)) =
     set (obj_keys args) \<union> sanitize ` set (obj_keys sec)"
proof (induction sec arbitrary: args)
  case Nil
  then show ?case by (simp add: securityArgs_def)
next
  case (Cons e sec)
  obtain p s where e: "e = (p, s)" by (cases e)
  have step: "securityArgs sanitize createDataDef getGraphQLType (e # sec) args =
          securityArgs sanitize createDataDef getGraphQLType sec
            (obj_set args (sanitize p) (getGraphQLType (createDataDef p (schema s) True) True))"
    by (simp add: securityArgs_def e)
  show ?case
    unfolding step Cons.IH by (auto simp: set_obj_keys_obj_set e)
qed

lemma distinct_keys_securityArgs:
  "distinct (obj_keys args) \<Longrightarrow>
   distinct (obj_keys (securityArgs sanitize createDataDef getGraphQLType sec args))"
proof (induction sec arbitrary: args)
  case Nil
  then show ?case by (simp add: securityArgs_def)
next
  case (Cons e sec)
  obtain p s where e: "e = (p, s)" by (cases e)
  have step: "securityArgs sanitize createDataDef getGraphQLType (e # sec) args =
          securityArgs sanitize createDataDef getGraphQLType sec
            (obj_set args (sanitize p) (getGraphQLType (createDataDef p (schema s) True) True))"
    by (simp add: securityArgs_def e)
  show ?case
    unfolding step by (rule Cons.IH) (rule distinct_obj_set [OF Cons.prems])
qed

lemma length_securityArgs:
  "distinct (obj_keys sec) \<Longrightarrow> inj_on sanitize (set (obj_keys sec)) \<Longrightarrow>
   sanitize ` set (obj_keys sec) \<inter> set (obj_keys args) = {} \<Longrightarrow>
   length (securityArgs sanitize createDataDef getGraphQLType sec args) = length args + length sec"
proof (induction sec arbitrary: args)
  case Nil
  then show ?case by (simp add: securityArgs_def)
next
  case (Cons e sec)
  obtain p s where e: "e = (p, s)" by (cases e)
  let ?args = "obj_set args (sanitize p) (getGraphQLType (createDataDef p (schema s) True) True)"
  have step: "securityArgs sanitize createDataDef getGraphQLType (e # sec) args =
          securityArgs sanitize createDataDef getGraphQLType sec ?args"
    by (simp add: securityArgs_def e)
  have fresh: "sanitize p \<notin> set (obj_keys args)"
    using Cons.prems(3) by (auto simp: e)
  have d: "distinct (obj_keys sec)" and i: "inj_on sanitize (set (obj_keys sec))"
    using Cons.prems(1,2) by (auto simp: e inj_on_def)
  have "sanitize p \<notin> sanitize ` set (obj_keys sec)"
    using Cons.prems(1,2) by (auto simp: e inj_on_def)
  then have disj: "sanitize ` set (obj_keys sec) \<inter> set (obj_keys ?args) = {}"
    using Cons.prems(3) by (auto simp: set_obj_keys_obj_set e)
  show ?case
    unfolding step using Cons.IH [OF d i disj] fresh by (simp add: length_obj_set)
qed

lemma viewer_args_getViewerAnyAuthOT:
  "viewer_args (fst (getViewerAnyAuthOT sanitize createDataDef getGraphQLType name queryFields data oass)) =
     sortObject (securityArgs sanitize createDataDef getGraphQLType (security data) [])"
  by (simp add: getViewerAnyAuthOT_def fold_anyAuthArg)

lemma saneMap_getViewerAnyAuthOT:
  "saneMap (snd (getViewerAnyAuthOT sanitize createDataDef getGraphQLType name queryFields data oass)) =
     securityTable sanitize (security data) (saneMap data)"
  by (simp add: getViewerAnyAuthOT_def fold_anyAuthArg)

lemma keys_anyAuth_args:
  "obj_keys (sortObject (securityArgs sanitize createDataDef getGraphQLType sec [])) =
     sorted_list_of_set (sanitize ` set (obj_keys sec))"
proof -
  let ?ks = "obj_keys (securityArgs sanitize createDataDef getGraphQLType sec [])"
  have d: "distinct ?ks"
    by (rule distinct_keys_securityArgs) simp
  have s: "set ?ks = sanitize ` set (obj_keys sec)"
    by (simp add: set_keys_securityArgs)
  have "sort ?ks = sorted_list_of_set (set ?ks)"
    using d by (simp add: sorted_list_of_set_sort_remdups distinct_remdups_id)
  then show ?thesis
    by (simp add: obj_keys_sortObject s)
qed

lemma find_snoc:
  "find P (xs @ [x]) = (case find P xs of None \<Rightarrow> (if P x then Some x else None) | Some y \<Rightarrow> Some y)"
  by (induction xs) simp_all

lemma obj_get_securityArgs:
  "obj_get (securityArgs sanitize createDataDef getGraphQLType sec args) k =
     (case find (\<lambda>(p, s). sanitize p = k) (rev sec) of
        None \<Rightarrow> obj_get args k
      | Some (p, s) \<Rightarrow> Some (getGraphQLType (createDataDef p (schema s) True) True))"
proof (induction sec arbitrary: args)
  case Nil
  then show ?case by (simp add: securityArgs_def)
next
  case (Cons e sec)
  obtain p s where e: "e = (p, s)" by (cases e)
  have step: "securityArgs sanitize createDataDef getGraphQLType (e # sec) args =
          securityArgs sanitize createDataDef getGraphQLType sec
            (obj_set args (sanitize p) (getGraphQLType (createDataDef p (schema s) True) True))"
    by (simp add: securityArgs_def e)
  show ?case
    unfolding step Cons.IH
    by (auto simp: find_snoc e obj_get_obj_set split: option.splits)
qed

lemma obj_get_sortObject:
  assumes "distinct (obj_keys ob)"
  shows "obj_get (sortObject ob) k = obj_get ob k"
proof -
  have "distinct (map fst (sortObject ob))"
    using assms obj_keys_sortObject [of ob] by (simp add: obj_keys_def)
  moreover have "set (sortObject ob) = set ob"
    by (simp add: sortObject_def)
  ultimately have "map_of (sortObject ob) = map_of ob"
    using assms by (simp add: map_of_inject_set obj_keys_def)
  then show ?thesis by (simp add: obj_get_def)
qed

lemma securityTable_other:
  "k \<notin> sanitize ` set (obj_keys sec) \<Longrightarrow>
   obj_get (securityTable sanitize sec table) k = obj_get table k"
proof (induction sec arbitrary: table)
  case Nil
  then show ?case by (simp add: securityTable_def)
next
  case (Cons e sec)
  obtain p s where e: "e = (p, s)" by (cases e)
  have step: "securityTable sanitize (e # sec) table =
                securityTable sanitize sec (obj_set table (sanitize p) p)"
    by (simp add: securityTable_def e)
  from Cons.prems have "k \<notin> sanitize ` set (obj_keys sec)" and "k \<noteq> sanitize p"
    by (auto simp: e)
  then show ?case
    unfolding step by (simp add: Cons.IH obj_get_obj_set)
qed

lemma securityTable_entry:
  "inj_on sanitize (set (obj_keys sec)) \<Longrightarrow> p \<in> set (obj_keys sec) \<Longrightarrow>
   obj_get (securityTable sanitize sec table) (sanitize p) = Some p"
proof (induction sec arbitrary: table)
  case Nil
  then show ?case by simp
next
  case (Cons e sec)
  obtain q s where e: "e = (q, s)" by (cases e)
  have step: "securityTable sanitize (e # sec) table =
                securityTable sanitize sec (obj_set table (sanitize q) q)"
    by (simp add: securityTable_def e)
  have inj: "inj_on sanitize (set (obj_keys sec))"
    using Cons.prems(1) by (simp add: e inj_on_def)
  show ?case
  proof (cases "p \<in> set (obj_keys sec)")
    case True
    then show ?thesis unfolding step by (rule Cons.IH [OF inj])
  next
    case False
    with Cons.prems(2) have pq: "p = q" by (simp add: e)
    have "sanitize p \<notin> sanitize ` set (obj_keys sec)"
      using Cons.prems(1) False pq by (auto simp: e inj_on_def)
    then show ?thesis
      unfolding step by (simp add: securityTable_other obj_get_obj_set pq)
  qed
qed

subsection \<open>The resolve functions of a result\<close>

lemma getViewerOT_resolvesProtocol:
  "getViewerOT sanitize name protocolName type queryFields data oass = Inr v \<Longrightarrow>
   resolvesProtocol sanitize protocolName v"
  by (auto simp: getViewerOT_def resolvesProtocol_def sanitizeAndStore_def Let_def
           split: option.splits)

lemma forIn_resolvers:
  assumes "forIn (loopBody sanitize isMutation oass) queryFields st = Inr st'"
    and "\<forall>(n, v) \<in> set (results st). \<exists>p \<in> set (obj_keys (security (loc_data st))). resolvesProtocol sanitize p v"
  shows "\<forall>(n, v) \<in> set (results st'). \<exists>p \<in> set (obj_keys (security (loc_data st))). resolvesProtocol sanitize p v"
  using assms
proof (induction queryFields arbitrary: st)
  case Nil
  then show ?case by simp
next
  case (Cons entry queryFields)
  obtain p fs where entry: "entry = (p, fs)" by (cases entry)
  from Cons.prems(1) obtain st1 where
    step: "loopBody sanitize isMutation oass (p, fs) st = Inr st1" and
    rest: "forIn (loopBody sanitize isMutation oass) queryFields st1 = Inr st'"
    by (auto simp: entry split: sum.splits)
  from loopBody_InrE [OF step] obtain scheme used1 where
    sch: "obj_get (security (loc_data st)) p = Some scheme" and
    ini: "initNames (usedViewerNames st) (schemeType (def scheme)) = Inr used1"
    by blast
  let ?t = "schemeType (def scheme)"
  let ?vn = "fst (allocateName (usedViewerNames st) ?t (baseViewerName sanitize isMutation ?t))"
  from loopBody_Some [OF sch ini, of sanitize isMutation fs oass] step
  obtain viewer where
    v: "getViewerOT sanitize ?vn p ?t fs (snd (viewerType (def scheme) (loc_data st))) oass = Inr viewer"
    and res1: "results st1 = obj_set (results st) ?vn viewer"
    and data1: "loc_data st1 = snd (viewerType (def scheme) (loc_data st))"
    by auto
  have sec1: "security (loc_data st1) = security (loc_data st)"
    by (simp add: data1)
  have pin: "p \<in> set (obj_keys (security (loc_data st)))"
    using sch obj_has_iff [of "security (loc_data st)" p] by (simp add: obj_has_def)
  have rp: "resolvesProtocol sanitize p viewer"
    by (rule getViewerOT_resolvesProtocol [OF v])
  have "\<forall>(n, v) \<in> set (results st1). \<exists>p \<in> set (obj_keys (security (loc_data st1))). resolvesProtocol sanitize p v"
    unfolding res1 sec1
    using set_obj_set_subset [of "results st" ?vn viewer] Cons.prems(2) pin rp by auto
  from Cons.IH [OF rest this] show ?case
    by (simp add: sec1)
qed

subsection \<open>Resolve functions\<close>

text \<open>
  C4. The resolve function of a per-protocol viewer returns the object
  \<open>{ _openapiToGraphql: { security: { key: args } } }\<close> for any \<open>args\<close>, where \<open>key\<close>
  is what \<open>sanitizeAndStore\<close> returns for the protocol name, the sanitized protocol
  name; neither the parent value nor the request context has any influence on what the
  call does. The viewer exists as soon as the protocol has a security scheme.
\<close>

theorem getViewerOT_resolve:
  assumes "obj_get (security data) protocolName = Some scheme"
  shows "\<exists>v. getViewerOT sanitize name protocolName type queryFields data oass = Inr v \<and>
           (\<forall>root args ctx d root' ctx'.
              fst (viewer_resolve v root args ctx d) =
                JObject [(''_openapiToGraphql'', JObject [(''security'',
                  JObject [(fst (sanitizeAndStore sanitize protocolName (saneMap d)), args)])])] \<and>
              fst (sanitizeAndStore sanitize protocolName (saneMap d)) = sanitize protocolName \<and>
              viewer_resolve v root' args ctx' d = viewer_resolve v root args ctx d)"
  using assms by (simp add: getViewerOT_def sanitizeAndStore_def Let_def)

text \<open>
  The protocol \<open>apiKeyAuth\<close> with the arguments \<open>{token: "abc"}\<close>: the resolve function
  returns \<open>{_openapiToGraphql: {security: {apiKeyAuth: {token: "abc"}}}}\<close>.
\<close>

theorem getViewerOT_resolve_witness:
  "obj_get (security exData) ''apiKeyAuth'' = Some exApiKey \<and>
   (\<exists>v. getViewerOT sanitizeCamel ''viewerApiKey'' ''apiKeyAuth'' ''apiKey''
          [(''getPet'', ''getPetField'')] exData [exOas] = Inr v \<and>
        fst (viewer_resolve v JUndefined (JObject [(''token'', JString ''abc'')]) JUndefined exData) =
          JObject [(''_openapiToGraphql'', JObject [(''security'',
            JObject [(''apiKeyAuth'', JObject [(''token'', JString ''abc'')])])])])"
proof -
  have h: "obj_get (security exData) ''apiKeyAuth'' = Some exApiKey"
    by (simp add: exData_def obj_get_def)
  have s: "sanitizeCamel ''apiKeyAuth'' = ''apiKeyAuth''"
    by code_simp
  from getViewerOT_resolve [OF h, of sanitizeCamel "''viewerApiKey''" "''apiKey''"
      "[(''getPet'', ''getPetField'')]" "[exOas]"]
  obtain v where v: "getViewerOT sanitizeCamel ''viewerApiKey'' ''apiKeyAuth'' ''apiKey''
          [(''getPet'', ''getPetField'')] exData [exOas] = Inr v"
     and a: "\<forall>root args ctx d root' ctx'.
              fst (viewer_resolve v root args ctx d) =
                JObject [(''_openapiToGraphql'', JObject [(''security'',
                  JObject [(fst (sanitizeAndStore sanitizeCamel ''apiKeyAuth'' (saneMap d)), args)])])] \<and>
              fst (sanitizeAndStore sanitizeCamel ''apiKeyAuth'' (saneMap d)) =
                sanitizeCamel ''apiKeyAuth'' \<and>
              viewer_resolve v root' args ctx' d = viewer_resolve v root args ctx d"
    by auto
  from a have r:
    "fst (viewer_resolve v JUndefined (JObject [(''token'', JString ''abc'')]) JUndefined exData) =
       JObject [(''_openapiToGraphql'', JObject [(''security'',
         JObject [(sanitizeCamel ''apiKeyAuth'', JObject [(''token'', JString ''abc'')])])])]"
    by simp
  show ?thesis using h v r s by simp
qed

text \<open>
  C5. The resolve function of the AnyAuth viewer returns
  \<open>{ _openapiToGraphql: { security: args } }\<close> for any \<open>args\<close>: the arguments are passed
  as they are, under no protocol name.
\<close>

theorem anyAuth_resolve_passes_args:
  "viewer_resolve
     (fst (getViewerAnyAuthOT sanitize createDataDef getGraphQLType name queryFields data oass))
     root args ctx d =
   (JObject [(''_openapiToGraphql'', JObject [(''security'', args)])], d)"
  by (simp add: getViewerAnyAuthOT_def anyAuthResolve_def Let_def split: prod.splits)

subsection \<open>Arguments of a per-protocol viewer\<close>

text \<open>
  C6. The arguments of a per-protocol viewer are the parameters of its scheme, one
  argument for each, in the order in which the scheme has them, and each of the type
  non-null string.
\<close>

theorem getViewerOT_args_declared_order:
  assumes "obj_get (security data) protocolName = Some scheme"
    and "distinct (obj_keys (parameters scheme))"
  shows "\<exists>v. getViewerOT sanitize name protocolName type queryFields data oass = Inr v \<and>
           viewer_args v =
             map (\<lambda>parameterName. (parameterName, GraphQLNonNull GraphQLString))
               (obj_keys (parameters scheme))"
  using assms
    fold_obj_set_fresh [of "[]" "obj_keys (parameters scheme)" "\<lambda>_. GraphQLNonNull GraphQLString"]
  by (simp add: getViewerOT_def Let_def obj_keys_def)

text \<open>Basic authentication: \<open>username\<close> stays before \<open>password\<close>.\<close>

theorem getViewerOT_args_declared_order_witness:
  "obj_get (security exData) ''basicAuth'' = Some exBasic \<and>
   distinct (obj_keys (parameters exBasic)) \<and>
   (\<exists>v. getViewerOT sanitizeCamel ''viewerBasicAuth'' ''basicAuth'' ''basicAuth''
          [(''getUser'', ''getUserField'')] exData [exOas] = Inr v \<and>
        viewer_args v =
          [(''username'', GraphQLNonNull GraphQLString), (''password'', GraphQLNonNull GraphQLString)])"
proof -
  have h: "obj_get (security exData) ''basicAuth'' = Some exBasic"
    by (simp add: exData_def obj_get_def)
  have d: "distinct (obj_keys (parameters exBasic))"
    by (simp add: exBasic_def obj_keys_def)
  show ?thesis
    using h d getViewerOT_args_declared_order [OF h d, of sanitizeCamel "''viewerBasicAuth''"
      "''basicAuth''" "[(''getUser'', ''getUserField'')]" "[exOas]"]
    by (simp add: exBasic_def obj_keys_def)
qed

subsection \<open>Names of the viewers of one type\<close>

text \<open>
  C2. A name that is already in the list of its type takes the length of the list plus
  one as a suffix, and the name that results is added to the list. In a run of the loop
  of \<open>createAndLoadViewer\<close> the names in the list of every type are pairwise distinct,
  however many protocols have that type: the list holds one name for each protocol of
  the type, the name of the type first and then that name with the suffixes 2, 3, ...
\<close>

theorem names_distinct_within_kind:
  "usedNames (snd (allocateName used type viewerName0)) type =
     usedNames used type @ [fst (allocateName used type viewerName0)] \<and>
   fst (allocateName used type viewerName0) =
     (if viewerName0 \<in> set (usedNames used type)
      then viewerName0 @ string_of_nat (length (usedNames used type) + 1) else viewerName0) \<and>
   (forIn (loopBody sanitize isMutation oass) queryFields (initLocals data) = Inr st \<longrightarrow>
      (\<forall>t. distinct (usedNames (usedViewerNames st) t) \<and>
           usedNames (usedViewerNames st) t =
             map (nthName (baseViewerName sanitize isMutation t))
               [0..<length (filter (\<lambda>p. protocolType data p = Some t) (obj_keys queryFields))]))"
proof (intro conjI impI allI)
  show "usedNames (snd (allocateName used type viewerName0)) type =
          usedNames used type @ [fst (allocateName used type viewerName0)]"
    by (simp add: usedNames_allocateName)
  show "fst (allocateName used type viewerName0) =
     (if viewerName0 \<in> set (usedNames used type)
      then viewerName0 @ string_of_nat (length (usedNames used type) + 1) else viewerName0)"
    by (rule fst_allocateName)
next
  fix t
  assume run: "forIn (loopBody sanitize isMutation oass) queryFields (initLocals data) = Inr st"
  have init: "namesInv sanitize isMutation (usedViewerNames (initLocals data :: ('a, 'b) Locals))"
    by (simp add: initLocals_def namesInv_init)
  from forIn_usedNames [OF run init]
  have inv: "namesInv sanitize isMutation (usedViewerNames st)"
    and len: "length (usedNames (usedViewerNames st) t) =
                length (filter (\<lambda>p. protocolType data p = Some t) (obj_keys queryFields))"
    by (simp_all add: initLocals_def usedNames_def obj_get_def)
  from inv have eq: "usedNames (usedViewerNames st) t =
      map (nthName (baseViewerName sanitize isMutation t)) [0..<length (usedNames (usedViewerNames st) t)]"
    unfolding namesInv_def by blast
  show "usedNames (usedViewerNames st) t =
          map (nthName (baseViewerName sanitize isMutation t))
            [0..<length (filter (\<lambda>p. protocolType data p = Some t) (obj_keys queryFields))]"
    using eq len by simp
  then show "distinct (usedNames (usedViewerNames st) t)"
    by (simp add: distinct_nthNames)
qed

text \<open>Three API keys: \<open>viewerApiKey\<close>, \<open>viewerApiKey2\<close> and \<open>viewerApiKey3\<close>.\<close>

theorem names_distinct_within_kind_witness:
  "(case forIn (loopBody sanitizeCamel False [exOas]) exKeysQueryFields (initLocals exKeysData) of
      Inl e \<Rightarrow> False
    | Inr st \<Rightarrow> distinct (usedNames (usedViewerNames st) ''apiKey'') \<and>
        usedNames (usedViewerNames st) ''apiKey'' = [''viewerApiKey'', ''viewerApiKey2'', ''viewerApiKey3''])"
proof (cases "forIn (loopBody sanitizeCamel False [exOas]) exKeysQueryFields (initLocals exKeysData)")
  case (Inl e)
  have "\<not> isl (forIn (loopBody sanitizeCamel False [exOas]) exKeysQueryFields
                   (initLocals exKeysData))"
    by code_simp
  with Inl show ?thesis by simp
next
  case (Inr st)
  have names: "map (nthName (baseViewerName sanitizeCamel False ''apiKey''))
          [0..<length (filter (\<lambda>p. protocolType exKeysData p = Some ''apiKey'')
                        (obj_keys exKeysQueryFields))]
         = [''viewerApiKey'', ''viewerApiKey2'', ''viewerApiKey3'']"
    by code_simp
  from names_distinct_within_kind [of _ _ _ sanitizeCamel False "[exOas]" exKeysQueryFields exKeysData st] Inr
  have "distinct (usedNames (usedViewerNames st) ''apiKey'') \<and>
        usedNames (usedViewerNames st) ''apiKey'' =
          map (nthName (baseViewerName sanitizeCamel False ''apiKey''))
          [0..<length (filter (\<lambda>p. protocolType exKeysData p = Some ''apiKey'')
                        (obj_keys exKeysQueryFields))]"
    by blast
  with Inr names show ?thesis by simp
qed

subsection \<open>HTTP schemes\<close>

text \<open>
  C3. The scheme \<open>http\<close> with the sub-scheme \<open>basic\<close> is filed under \<open>basicAuth\<close>,
  without a warning. For \<open>http\<close> with any other sub-scheme the step of the loop emits
  one warning, raises nothing and stores a viewer for the protocol in \<open>results\<close>. A call
  of \<open>createAndLoadViewer\<close> on protocols with well-formed entries returns; the warnings
  that it has emitted are \<open>httpWarnings\<close>, one for each protocol with an unsupported
  sub-scheme; and the mapping that it returns holds, for each such protocol, the viewer
  that \<open>getViewerOT\<close> builds for it with the type \<open>http\<close>, under the name allocated to
  the protocol. For the mapping, the names of the five types must not begin with one
  another or begin the AnyAuth name, so that no viewer replaces another;
  \<open>sanitizeCamel\<close> yields such names.
\<close>

theorem unsupported_http_scheme_warns_once:
  fixes data :: "'s PreprocessingData" and queryFields :: "('f obj) obj"
  assumes "\<forall>p \<in> set (obj_keys queryFields). wellFormedEntry data p"
  shows "(\<forall>(d :: SecuritySchemeObject) (dat :: 's PreprocessingData).
            def_type d = ''http'' \<and> def_scheme d = Some ''basic'' \<longrightarrow>
            viewerType d dat = (''basicAuth'', dat)) \<and>
         (\<forall>(st :: ('f, 's) Locals) protocolName protocolFields scheme.
            obj_get (security (loc_data st)) protocolName = Some scheme \<and>
            def_type (def scheme) = ''http'' \<and> def_scheme (def scheme) \<noteq> Some ''basic'' \<longrightarrow>
            (\<exists>st' viewerName viewer.
               loopBody sanitize isMutation oass (protocolName, protocolFields) st = Inr st' \<and>
               warnings (loc_data st') = warnings (loc_data st) @
                 [\<lparr>typeKey = ''UNSUPPORTED_HTTP_AUTH_SCHEME'',
                   culprit = String_of (def_scheme (def scheme))\<rparr>] \<and>
               obj_get (results st') viewerName = Some viewer \<and>
               getViewerOT sanitize viewerName protocolName (def_type (def scheme)) protocolFields
                 (loc_data st') oass = Inr viewer \<and>
               ot_name (viewer_type viewer) = viewerName \<and>
               ot_fields (viewer_type viewer) = protocolFields)) \<and>
         (prefixFree sanitize isMutation viewerKinds \<longrightarrow>
            (\<exists>(res :: ('f, 's) Viewer obj) data'.
               createAndLoadViewer sanitize createDataDef getGraphQLType queryFields data
                 isMutation oass = Inr (res, data') \<and>
               warnings data' = warnings data @ httpWarnings data (obj_keys queryFields) \<and>
               length (httpWarnings data (obj_keys queryFields)) =
                 length (filter (unsupportedHttp data) (obj_keys queryFields)) \<and>
               (\<forall>i < length queryFields.
                  unsupportedHttp data (fst (queryFields ! i)) \<longrightarrow>
                  (\<exists>v. obj_get res (viewerNames sanitize isMutation data queryFields ! i) = Some v \<and>
                       getViewerOT sanitize (viewerNames sanitize isMutation data queryFields ! i)
                         (fst (queryFields ! i)) ''http'' (snd (queryFields ! i)) data oass =
                         Inr v)))) \<and>
         prefixFree sanitizeCamel isMutation viewerKinds"
proof (intro conjI allI impI)
  fix d :: SecuritySchemeObject and dat :: "'s PreprocessingData"
  assume "def_type d = ''http'' \<and> def_scheme d = Some ''basic''"
  then show "viewerType d dat = (''basicAuth'', dat)"
    by (simp add: viewerType_def)
next
  fix st :: "('f, 's) Locals" and protocolName protocolFields scheme
  assume a: "obj_get (security (loc_data st)) protocolName = Some scheme \<and>
            def_type (def scheme) = ''http'' \<and> def_scheme (def scheme) \<noteq> Some ''basic''"
  then have sch: "obj_get (security (loc_data st)) protocolName = Some scheme" by simp
  from a have t: "schemeType (def scheme) = def_type (def scheme)"
    by (simp add: schemeType_def)
  from a have "schemeType (def scheme) \<notin> set objectPrototypeNames"
    by (simp add: t objectPrototypeNames_def)
  from initNames_Inr [OF this] obtain used1 where
    ini: "initNames (usedViewerNames st) (schemeType (def scheme)) = Inr used1"
    by blast
  let ?vn = "fst (allocateName (usedViewerNames st) (schemeType (def scheme))
              (baseViewerName sanitize isMutation (schemeType (def scheme))))"
  from loopBody_Some [OF sch ini, of sanitize isMutation protocolFields oass]
  obtain viewer st' where
    v: "getViewerOT sanitize ?vn protocolName (schemeType (def scheme)) protocolFields
          (snd (viewerType (def scheme) (loc_data st))) oass = Inr viewer"
    and step: "loopBody sanitize isMutation oass (protocolName, protocolFields) st = Inr st'"
    and res: "results st' = obj_set (results st) ?vn viewer"
    and dat: "loc_data st' = snd (viewerType (def scheme) (loc_data st))"
    by auto
  have "obj_get (security (snd (viewerType (def scheme) (loc_data st)))) protocolName = Some scheme"
    using sch by simp
  from getViewerOT_Inr [OF this, of sanitize ?vn "schemeType (def scheme)" protocolFields oass] v
  have nm: "ot_name (viewer_type viewer) = ?vn" "ot_fields (viewer_type viewer) = protocolFields"
    by auto
  show "\<exists>st' viewerName viewer.
               loopBody sanitize isMutation oass (protocolName, protocolFields) st = Inr st' \<and>
               warnings (loc_data st') = warnings (loc_data st) @
                 [\<lparr>typeKey = ''UNSUPPORTED_HTTP_AUTH_SCHEME'',
                   culprit = String_of (def_scheme (def scheme))\<rparr>] \<and>
               obj_get (results st') viewerName = Some viewer \<and>
               getViewerOT sanitize viewerName protocolName (def_type (def scheme)) protocolFields
                 (loc_data st') oass = Inr viewer \<and>
               ot_name (viewer_type viewer) = viewerName \<and>
               ot_fields (viewer_type viewer) = protocolFields"
    using step v nm a
    by (intro exI [of _ st'] exI [of _ ?vn] exI [of _ viewer])
       (simp add: res dat obj_get_obj_set warnings_viewerType t)
next
  assume pf: "prefixFree sanitize isMutation viewerKinds"
  let ?names = "viewerNames sanitize isMutation data queryFields"
  let ?any = "anyAuthObjectName isMutation"
  from loop_exact [OF assms pf, of oass] obtain st :: "('f, 's) Locals" where
    run: "forIn (loopBody sanitize isMutation oass) queryFields (initLocals data) = Inr st"
    and keys: "obj_keys (results st) = ?names"
    and d: "distinct (?names @ [?any])"
    and all: "list_all2
             (\<lambda>(p, fs) (n, v). \<exists>t. protocolType data p = Some t \<and>
                getViewerOT sanitize n p t fs data oass = Inr v)
             queryFields (results st)"
    by blast
  let ?any_ot = "getViewerAnyAuthOT sanitize createDataDef getGraphQLType ?any
                  (anyAuthFields st) (loc_data st) oass"
  let ?res = "obj_set (results st) ?any (fst ?any_ot)"
  have fresh: "?any \<notin> set (obj_keys (results st))"
    using d keys by simp
  have res: "?res = results st @ [(?any, fst ?any_ot)]"
    by (rule obj_set_fresh [OF fresh])
  have dres: "distinct (map fst ?res)"
    unfolding res using d keys by (simp add: obj_keys_def)
  have w: "warnings (snd ?any_ot) = warnings data @ httpWarnings data (obj_keys queryFields)"
    using forIn_warnings_exact [OF run] by (simp add: initLocals_def)
  have viewers: "\<exists>v. obj_get ?res (?names ! i) = Some v \<and>
                    getViewerOT sanitize (?names ! i) (fst (queryFields ! i)) ''http''
                      (snd (queryFields ! i)) data oass = Inr v"
    if i: "i < length queryFields" and u: "unsupportedHttp data (fst (queryFields ! i))" for i
  proof -
    from all have len: "length queryFields = length (results st)"
      by (rule list_all2_lengthD)
    obtain p fs where q: "queryFields ! i = (p, fs)" by (cases "queryFields ! i")
    obtain n v where r: "results st ! i = (n, v)" by (cases "results st ! i")
    from all i have "(\<lambda>(p, fs) (n, v). \<exists>t. protocolType data p = Some t \<and>
                getViewerOT sanitize n p t fs data oass = Inr v) (queryFields ! i) (results st ! i)"
      by (simp add: list_all2_conv_all_nth)
    then obtain t where t: "protocolType data p = Some t"
      and g: "getViewerOT sanitize n p t fs data oass = Inr v"
      by (auto simp: q r)
    from u t have "t = ''http''"
      by (auto simp: q unsupportedHttp_def protocolType_eq schemeType_def split: option.splits)
    have n: "?names ! i = n"
      using keys i len r by (metis fst_conv nth_map obj_keys_def)
    have "(n, v) \<in> set ?res"
      unfolding res using i len r by (metis Un_iff nth_mem set_append)
    then have "obj_get ?res n = Some v"
      using dres by (simp add: obj_get_def)
    with g show ?thesis
      unfolding n \<open>t = ''http''\<close> [symmetric] by (simp add: q)
  qed
  show "\<exists>(res :: ('f, 's) Viewer obj) data'.
               createAndLoadViewer sanitize createDataDef getGraphQLType queryFields data
                 isMutation oass = Inr (res, data') \<and>
               warnings data' = warnings data @ httpWarnings data (obj_keys queryFields) \<and>
               length (httpWarnings data (obj_keys queryFields)) =
                 length (filter (unsupportedHttp data) (obj_keys queryFields)) \<and>
               (\<forall>i < length queryFields.
                  unsupportedHttp data (fst (queryFields ! i)) \<longrightarrow>
                  (\<exists>v. obj_get res (viewerNames sanitize isMutation data queryFields ! i) = Some v \<and>
                       getViewerOT sanitize (viewerNames sanitize isMutation data queryFields ! i)
                         (fst (queryFields ! i)) ''http'' (snd (queryFields ! i)) data oass =
                         Inr v))"
    using w viewers by (simp add: createAndLoadViewer_Inr [OF run] length_httpWarnings)
next
  show "prefixFree sanitizeCamel isMutation viewerKinds"
    by (rule prefixFree_sanitizeCamel)
qed

text \<open>
  Digest and basic authentication: one warning, for the digest scheme, whose viewer is
  returned under \<open>viewerHttp\<close>.
\<close>

theorem unsupported_http_scheme_warns_once_witness:
  "list_all (wellFormedEntry exData) (obj_keys exDigestQueryFields) \<and>
   prefixFree sanitizeCamel False viewerKinds \<and>
   exDigestQueryFields ! 0 = (''digestAuth'', [(''getSecret'', ''getSecretField'')]) \<and>
   unsupportedHttp exData ''digestAuth'' \<and>
   viewerType (def exBasic) exData = (''basicAuth'', exData) \<and>
   (\<exists>res data' v.
      createAndLoadViewer sanitizeCamel exCreateDataDef exGetGraphQLType exDigestQueryFields
        exData False [exOas] = Inr (res, data') \<and>
      warnings data' = [\<lparr>typeKey = ''UNSUPPORTED_HTTP_AUTH_SCHEME'', culprit = ''digest''\<rparr>] \<and>
      obj_get res ''viewerHttp'' = Some v \<and>
      getViewerOT sanitizeCamel ''viewerHttp'' ''digestAuth'' ''http''
        [(''getSecret'', ''getSecretField'')] exData [exOas] = Inr v)"
proof -
  have h: "\<forall>p \<in> set (obj_keys exDigestQueryFields). wellFormedEntry exData p"
    by code_simp
  have f: "prefixFree sanitizeCamel False viewerKinds"
    by code_simp
  have q: "exDigestQueryFields ! 0 = (''digestAuth'', [(''getSecret'', ''getSecretField'')])"
    by (simp add: exDigestQueryFields_def)
  have u: "unsupportedHttp exData ''digestAuth''"
    by code_simp
  have w: "warnings exData @ httpWarnings exData (obj_keys exDigestQueryFields) =
             [\<lparr>typeKey = ''UNSUPPORTED_HTTP_AUTH_SCHEME'', culprit = ''digest''\<rparr>]"
    by code_simp
  have n: "viewerNames sanitizeCamel False exData exDigestQueryFields ! 0 = ''viewerHttp''"
    by code_simp
  have l: "0 < length exDigestQueryFields"
    by (simp add: exDigestQueryFields_def)
  have b: "def_type (def exBasic) = ''http'' \<and> def_scheme (def exBasic) = Some ''basic''"
    by (simp add: exBasic_def)
  note inst = unsupported_http_scheme_warns_once [OF h, of sanitizeCamel False "[exOas]"
      exCreateDataDef exGetGraphQLType]
  from inst b have c1: "viewerType (def exBasic) exData = (''basicAuth'', exData)"
    by blast
  from inst f obtain res data' where
    run: "createAndLoadViewer sanitizeCamel exCreateDataDef exGetGraphQLType exDigestQueryFields
        exData False [exOas] = Inr (res, data')"
    and ws: "warnings data' = warnings exData @ httpWarnings exData (obj_keys exDigestQueryFields)"
    and vs: "\<forall>i < length exDigestQueryFields.
                  unsupportedHttp exData (fst (exDigestQueryFields ! i)) \<longrightarrow>
                  (\<exists>v. obj_get res (viewerNames sanitizeCamel False exData exDigestQueryFields ! i) = Some v \<and>
                       getViewerOT sanitizeCamel (viewerNames sanitizeCamel False exData exDigestQueryFields ! i)
                         (fst (exDigestQueryFields ! i)) ''http'' (snd (exDigestQueryFields ! i)) exData [exOas] =
                         Inr v)"
    by blast
  from vs l have "unsupportedHttp exData (fst (exDigestQueryFields ! 0)) \<longrightarrow>
      (\<exists>v. obj_get res (viewerNames sanitizeCamel False exData exDigestQueryFields ! 0) = Some v \<and>
           getViewerOT sanitizeCamel (viewerNames sanitizeCamel False exData exDigestQueryFields ! 0)
             (fst (exDigestQueryFields ! 0)) ''http'' (snd (exDigestQueryFields ! 0)) exData [exOas] =
             Inr v)"
    by blast
  with u obtain v where
    "obj_get res ''viewerHttp'' = Some v"
    "getViewerOT sanitizeCamel ''viewerHttp'' ''digestAuth'' ''http''
        [(''getSecret'', ''getSecretField'')] exData [exOas] = Inr v"
    unfolding n q by auto
  with h f q u c1 run ws w show ?thesis
    by (auto simp: list_all_iff)
qed

text \<open>
  C9. A scheme \<open>http\<close> with an unsupported sub-scheme keeps the type \<open>http\<close>: the
  viewer is filed in the list of \<open>http\<close>, and it is named by the sanitized
  \<open>viewer http\<close> (\<open>mutation viewer http\<close> for mutations), with the suffix of C2 when
  that name is in the list already.
\<close>

theorem unsupported_http_label:
  assumes "obj_get (security (loc_data st)) protocolName = Some scheme"
    and "def_type (def scheme) = ''http''"
    and "def_scheme (def scheme) \<noteq> Some ''basic''"
  shows "fst (viewerType (def scheme) (loc_data st)) = ''http'' \<and>
         (\<exists>st' viewer.
            loopBody sanitize isMutation oass (protocolName, protocolFields) st = Inr st' \<and>
            (let names = usedNames (usedViewerNames st) ''http'';
                 base = (if isMutation then sanitize ''mutation viewer http''
                         else sanitize ''viewer http'');
                 viewerName = (if base \<in> set names
                               then base @ string_of_nat (length names + 1) else base)
             in (names = [] \<longrightarrow> viewerName = base) \<and>
                results st' = obj_set (results st) viewerName viewer \<and>
                ot_name (viewer_type viewer) = viewerName \<and>
                usedNames (usedViewerNames st') ''http'' = names @ [viewerName] \<and>
                (\<forall>t. t \<noteq> ''http'' \<longrightarrow>
                     usedNames (usedViewerNames st') t = usedNames (usedViewerNames st) t)))"
proof -
  from assms have t: "schemeType (def scheme) = ''http''"
    by (simp add: schemeType_def)
  let ?b = "baseViewerName sanitize isMutation ''http''"
  let ?vn = "fst (allocateName (usedViewerNames st) ''http'' ?b)"
  have "''http'' \<notin> set objectPrototypeNames"
    by (simp add: objectPrototypeNames_def)
  from initNames_Inr [OF this] obtain used1 where
    "initNames (usedViewerNames st) (schemeType (def scheme)) = Inr used1"
    unfolding t by blast
  from loopBody_Some [OF assms(1) this, of sanitize isMutation protocolFields oass]
  obtain viewer st' where
    v: "getViewerOT sanitize ?vn protocolName ''http'' protocolFields
          (snd (viewerType (def scheme) (loc_data st))) oass = Inr viewer"
    and step: "loopBody sanitize isMutation oass (protocolName, protocolFields) st = Inr st'"
    and res: "results st' = obj_set (results st) ?vn viewer"
    and used: "usedViewerNames st' = snd (allocateName (usedViewerNames st) ''http'' ?b)"
    unfolding t by auto
  have "obj_get (security (snd (viewerType (def scheme) (loc_data st)))) protocolName = Some scheme"
    using assms(1) by simp
  from getViewerOT_Inr [OF this, of sanitize ?vn "''http''" protocolFields oass] v
  have nm: "ot_name (viewer_type viewer) = ?vn" by auto
  have b: "?b = (if isMutation then sanitize ''mutation viewer http'' else sanitize ''viewer http'')"
    by (simp add: baseViewerName_def)
  have "\<exists>st' viewer.
            loopBody sanitize isMutation oass (protocolName, protocolFields) st = Inr st' \<and>
            (let names = usedNames (usedViewerNames st) ''http'';
                 base = (if isMutation then sanitize ''mutation viewer http''
                         else sanitize ''viewer http'');
                 viewerName = (if base \<in> set names
                               then base @ string_of_nat (length names + 1) else base)
             in (names = [] \<longrightarrow> viewerName = base) \<and>
                results st' = obj_set (results st) viewerName viewer \<and>
                ot_name (viewer_type viewer) = viewerName \<and>
                usedNames (usedViewerNames st') ''http'' = names @ [viewerName] \<and>
                (\<forall>t. t \<noteq> ''http'' \<longrightarrow>
                     usedNames (usedViewerNames st') t = usedNames (usedViewerNames st) t))"
    using step res nm
    by (intro exI [of _ st'] exI [of _ viewer])
       (simp add: Let_def used usedNames_allocateName fst_allocateName b [symmetric])
  then show ?thesis
    using t by (simp add: fst_viewerType)
qed

text \<open>Digest authentication as the first protocol: the viewer is \<open>viewerHttp\<close>.\<close>

theorem unsupported_http_label_witness:
  "obj_get (security (loc_data (initLocals exData :: (string, string) Locals))) ''digestAuth'' = Some exDigest \<and>
   def_type (def exDigest) = ''http'' \<and>
   def_scheme (def exDigest) \<noteq> Some ''basic'' \<and>
   fst (viewerType (def exDigest) exData) = ''http'' \<and>
   (\<exists>st'. loopBody sanitizeCamel False [exOas] (''digestAuth'', [(''getSecret'', ''getSecretField'')])
            (initLocals exData) = Inr st' \<and>
         obj_keys (results st') = [''viewerHttp''] \<and>
         usedNames (usedViewerNames st') ''http'' = [''viewerHttp''])"
proof -
  let ?st = "initLocals exData :: (string, string) Locals"
  have h1: "obj_get (security (loc_data ?st)) ''digestAuth'' = Some exDigest"
    by (simp add: initLocals_def exData_def obj_get_def)
  have h2: "def_type (def exDigest) = ''http''"
    by (simp add: exDigest_def)
  have h3: "def_scheme (def exDigest) \<noteq> Some ''basic''"
    by (simp add: exDigest_def)
  have s: "sanitizeCamel ''viewer http'' = ''viewerHttp''"
    by code_simp
  have u: "usedNames (usedViewerNames ?st) ''http'' = []"
    by (simp add: initLocals_def usedNames_def obj_get_def)
  have r: "results ?st = []"
    by (simp add: initLocals_def)
  have d: "loc_data ?st = exData"
    by (simp add: initLocals_def)
  from unsupported_http_label [OF h1 h2 h3, of sanitizeCamel False "[exOas]"
      "[(''getSecret'', ''getSecretField'')]"]
  show ?thesis
    using h1 h2 h3 by (auto simp: Let_def s u r d obj_keys_def)
qed

subsection \<open>Arguments of the AnyAuth viewer\<close>

text \<open>
  C7, as the code has it. The arguments of the AnyAuth viewer are collected by one
  assignment for each protocol of \<open>data.security\<close>, under the sanitized name of the
  protocol, and then sorted by key. The keys are the sanitized protocol names, in
  ascending lexicographic order and without repetition, whatever the order of the
  protocols in \<open>data.security\<close>: there is one argument for each sanitized name, not for
  each protocol. Protocols with one sanitized name share one argument, which has the
  type built for the protocol declared last; when the sanitized names of the protocols
  differ from each other there are as many arguments as protocols.
\<close>

theorem anyAuth_args_sorted_by_key:
  "viewer_args (fst (getViewerAnyAuthOT sanitize createDataDef getGraphQLType name queryFields data oass)) =
     sortObject (securityArgs sanitize createDataDef getGraphQLType (security data) []) \<and>
   sorted (obj_keys (viewer_args
     (fst (getViewerAnyAuthOT sanitize createDataDef getGraphQLType name queryFields data oass)))) \<and>
   distinct (obj_keys (viewer_args
     (fst (getViewerAnyAuthOT sanitize createDataDef getGraphQLType name queryFields data oass)))) \<and>
   set (obj_keys (viewer_args
     (fst (getViewerAnyAuthOT sanitize createDataDef getGraphQLType name queryFields data oass)))) =
     sanitize ` set (obj_keys (security data)) \<and>
   length (viewer_args
     (fst (getViewerAnyAuthOT sanitize createDataDef getGraphQLType name queryFields data oass))) =
     card (sanitize ` set (obj_keys (security data))) \<and>
   (\<forall>k. obj_get (viewer_args
          (fst (getViewerAnyAuthOT sanitize createDataDef getGraphQLType name queryFields data oass))) k =
        (case find (\<lambda>(p, s). sanitize p = k) (rev (security data)) of
           None \<Rightarrow> None
         | Some (p, s) \<Rightarrow> Some (getGraphQLType (createDataDef p (schema s) True) True))) \<and>
   (\<forall>data' :: 's PreprocessingData.
      set (obj_keys (security data')) = set (obj_keys (security data)) \<longrightarrow>
      obj_keys (viewer_args
        (fst (getViewerAnyAuthOT sanitize createDataDef getGraphQLType name queryFields data' oass))) =
      obj_keys (viewer_args
        (fst (getViewerAnyAuthOT sanitize createDataDef getGraphQLType name queryFields data oass)))) \<and>
   (distinct (obj_keys (security data)) \<and> inj_on sanitize (set (obj_keys (security data))) \<longrightarrow>
      length (viewer_args
        (fst (getViewerAnyAuthOT sanitize createDataDef getGraphQLType name queryFields data oass))) =
      length (security data))"
proof -
  let ?args = "securityArgs sanitize createDataDef getGraphQLType (security data) []"
  have len: "length ?args = length (security data)"
    if "distinct (obj_keys (security data))" "inj_on sanitize (set (obj_keys (security data)))"
    using length_securityArgs [OF that, of "[]" createDataDef getGraphQLType] by simp
  have ls: "length (sortObject ob) = length ob" for ob :: "gql_type obj"
    by (simp add: sortObject_def)
  have d: "distinct (obj_keys ?args)"
    by (rule distinct_keys_securityArgs) simp
  have "length ?args = length (obj_keys ?args)"
    by (simp add: obj_keys_def)
  also have "\<dots> = card (set (obj_keys ?args))"
    using d by (simp add: distinct_card)
  finally have card: "length ?args = card (sanitize ` set (obj_keys (security data)))"
    by (simp add: set_keys_securityArgs)
  have get: "obj_get (sortObject ?args) k =
        (case find (\<lambda>(p, s). sanitize p = k) (rev (security data)) of
           None \<Rightarrow> None
         | Some (p, s) \<Rightarrow> Some (getGraphQLType (createDataDef p (schema s) True) True))" for k
    unfolding obj_get_sortObject [OF d] obj_get_securityArgs
    by (simp add: obj_get_def split: option.splits)
  have len': "card (sanitize ` set (obj_keys (security data))) = length (security data)"
    if "distinct (obj_keys (security data))" "inj_on sanitize (set (obj_keys (security data)))"
    using len [OF that] card by simp
  show ?thesis
    by (simp add: viewer_args_getViewerAnyAuthOT keys_anyAuth_args len' ls card get)
qed

text \<open>Declared as digest, basic, API key; the arguments are in alphabetical order.\<close>

theorem anyAuth_args_sorted_by_key_witness:
  "distinct (obj_keys (security exData)) \<and>
   inj_on sanitizeCamel (set (obj_keys (security exData))) \<and>
   obj_keys (security exData) = [''digestAuth'', ''basicAuth'', ''apiKeyAuth''] \<and>
   viewer_args (fst (getViewerAnyAuthOT sanitizeCamel exCreateDataDef exGetGraphQLType
       ''viewerAnyAuth'' [(''getPet'', ''getPetField'')] exData [exOas])) =
     [(''apiKeyAuth'', GraphQLNamedType ''apiKeyAuthInput''),
      (''basicAuth'', GraphQLNamedType ''basicAuthInput''),
      (''digestAuth'', GraphQLNamedType ''digestAuthInput'')]"
proof -
  have k: "obj_keys (security exData) = [''digestAuth'', ''basicAuth'', ''apiKeyAuth'']"
    by (simp add: exData_def)
  have s: "sanitizeCamel ''digestAuth'' = ''digestAuth''" "sanitizeCamel ''basicAuth'' = ''basicAuth''"
    "sanitizeCamel ''apiKeyAuth'' = ''apiKeyAuth''"
    by code_simp+
  have i: "inj_on sanitizeCamel (set (obj_keys (security exData)))"
    by (simp add: k s)
  have e: "sortObject (securityArgs sanitizeCamel exCreateDataDef exGetGraphQLType (security exData) []) =
     [(''apiKeyAuth'', GraphQLNamedType ''apiKeyAuthInput''),
      (''basicAuth'', GraphQLNamedType ''basicAuthInput''),
      (''digestAuth'', GraphQLNamedType ''digestAuthInput'')]"
    by code_simp
  from anyAuth_args_sorted_by_key [of sanitizeCamel exCreateDataDef exGetGraphQLType
      "''viewerAnyAuth''" "[(''getPet'', ''getPetField'')]" exData "[exOas]"]
  have "viewer_args (fst (getViewerAnyAuthOT sanitizeCamel exCreateDataDef exGetGraphQLType
       ''viewerAnyAuth'' [(''getPet'', ''getPetField'')] exData [exOas])) =
     sortObject (securityArgs sanitizeCamel exCreateDataDef exGetGraphQLType (security exData) [])"
    by blast
  with e k i show ?thesis by simp
qed

text \<open>
  C7 as stated fails. The protocols \<open>my-key\<close> and \<open>my.key\<close> have the sanitized name
  \<open>myKey\<close>: the AnyAuth viewer has one argument for the two protocols, with the type
  built for \<open>my.key\<close>.
\<close>

theorem anyAuth_args_sorted_by_key_counterexample:
  "obj_keys (security exDashData) = [''my-key'', ''my.key''] \<and>
   viewer_args (fst (getViewerAnyAuthOT sanitizeCamel exCreateDataDef exGetGraphQLType
       ''viewerAnyAuth'' [(''getMine'', ''getMineField'')] exDashData [exOas])) =
     [(''myKey'', GraphQLNamedType ''my.keyInput'')]"
  by code_simp

text \<open>
  C10. The arguments of the AnyAuth viewer come from the schemes of \<open>data.security\<close>,
  not from the protocols of \<open>queryFields\<close>: whatever \<open>queryFields\<close> is, the AnyAuth viewer
  of the result has one argument for the sanitized name of every declared scheme. For
  an empty \<open>queryFields\<close> the result is the AnyAuth viewer alone, with these arguments.
\<close>

theorem anyAuth_args_from_all_schemes:
  fixes data :: "'s PreprocessingData" and res :: "('f, 's) Viewer obj"
  shows
  "(createAndLoadViewer sanitize createDataDef getGraphQLType queryFields data isMutation oass =
      Inr (res, data') \<longrightarrow>
      (\<exists>v. obj_get res (anyAuthObjectName isMutation) = Some v \<and>
           viewer_args v =
             sortObject (securityArgs sanitize createDataDef getGraphQLType (security data) []) \<and>
           set (obj_keys (viewer_args v)) = sanitize ` set (obj_keys (security data)))) \<and>
   (\<exists>(v :: ('f, 's) Viewer) data''.
      createAndLoadViewer sanitize createDataDef getGraphQLType [] data isMutation oass =
        Inr ([(anyAuthObjectName isMutation, v)], data'') \<and>
      viewer_args v =
        sortObject (securityArgs sanitize createDataDef getGraphQLType (security data) []) \<and>
      set (obj_keys (viewer_args v)) = sanitize ` set (obj_keys (security data)))"
proof (intro conjI impI)
  assume run: "createAndLoadViewer sanitize createDataDef getGraphQLType queryFields data isMutation oass =
      Inr (res, data')"
  then obtain st where loop: "forIn (loopBody sanitize isMutation oass) queryFields (initLocals data) = Inr st"
    by (cases "forIn (loopBody sanitize isMutation oass) queryFields (initLocals data)")
       (simp_all add: createAndLoadViewer_Inl)
  from forIn_warnings [OF loop] have sec: "security (loc_data st) = security data"
    by (auto simp: initLocals_def)
  let ?v = "fst (getViewerAnyAuthOT sanitize createDataDef getGraphQLType
                  (anyAuthObjectName isMutation) (anyAuthFields st) (loc_data st) oass)"
  from run have res: "res = obj_set (results st) (anyAuthObjectName isMutation) ?v"
    by (simp add: createAndLoadViewer_Inr [OF loop])
  show "\<exists>v. obj_get res (anyAuthObjectName isMutation) = Some v \<and>
           viewer_args v =
             sortObject (securityArgs sanitize createDataDef getGraphQLType (security data) []) \<and>
           set (obj_keys (viewer_args v)) = sanitize ` set (obj_keys (security data))"
    by (intro exI [of _ ?v])
       (simp add: res obj_get_obj_set viewer_args_getViewerAnyAuthOT sec keys_anyAuth_args)
next
  have loop: "forIn (loopBody sanitize isMutation oass) [] (initLocals data :: ('f, 's) Locals) =
                Inr (initLocals data)"
    by simp
  show "\<exists>(v :: ('f, 's) Viewer) data''.
      createAndLoadViewer sanitize createDataDef getGraphQLType [] data isMutation oass =
        Inr ([(anyAuthObjectName isMutation, v)], data'') \<and>
      viewer_args v =
        sortObject (securityArgs sanitize createDataDef getGraphQLType (security data) []) \<and>
      set (obj_keys (viewer_args v)) = sanitize ` set (obj_keys (security data))"
    by (simp add: createAndLoadViewer_Inr [OF loop] initLocals_def viewer_args_getViewerAnyAuthOT
          keys_anyAuth_args)
qed

text \<open>
  No operation uses digest authentication, and the AnyAuth viewer has the argument
  \<open>digestAuth\<close> all the same.
\<close>

theorem anyAuth_args_from_all_schemes_witness:
  "obj_keys exQueryFields = [''basicAuth'', ''apiKeyAuth''] \<and>
   (\<exists>res data' v.
      createAndLoadViewer sanitizeCamel exCreateDataDef exGetGraphQLType exQueryFields exData
        False [exOas] = Inr (res, data') \<and>
      obj_get res ''viewerAnyAuth'' = Some v \<and>
      obj_keys (viewer_args v) = [''apiKeyAuth'', ''basicAuth'', ''digestAuth''])"
proof -
  let ?run = "createAndLoadViewer sanitizeCamel exCreateDataDef exGetGraphQLType exQueryFields exData
        False [exOas]"
  have "\<not> isl ?run"
    by code_simp
  then obtain res data' where run: "?run = Inr (res, data')"
    by (cases ?run) auto
  have e: "obj_keys (sortObject (securityArgs sanitizeCamel exCreateDataDef exGetGraphQLType
              (security exData) [])) = [''apiKeyAuth'', ''basicAuth'', ''digestAuth'']"
    by code_simp
  from anyAuth_args_from_all_schemes [of sanitizeCamel exCreateDataDef exGetGraphQLType
      exQueryFields exData False "[exOas]" res data'] run
  obtain v where "obj_get res (anyAuthObjectName False) = Some v"
    "viewer_args v =
       sortObject (securityArgs sanitizeCamel exCreateDataDef exGetGraphQLType (security exData) [])"
    by blast
  with run e show ?thesis
    by (auto simp: anyAuthObjectName_def exQueryFields_def)
qed

subsection \<open>The number of viewers\<close>

text \<open>
  C1. For \<open>N\<close> protocols with well-formed entries \<open>createAndLoadViewer\<close> returns a
  mapping with \<open>N + 1\<close> entries. Its names are the names allocated to the protocols, in
  the order of the protocols, and then the AnyAuth name; they are pairwise distinct, and
  the AnyAuth name is none of the names of the protocols. This holds for every sanitize
  function under which the names of the five types do not begin with one another or
  begin the AnyAuth name, and \<open>sanitizeCamel\<close> is one.
\<close>

theorem viewer_count:
  fixes data :: "'s PreprocessingData" and queryFields :: "('f obj) obj"
  assumes "\<forall>p \<in> set (obj_keys queryFields). wellFormedEntry data p"
  shows "(prefixFree sanitize isMutation viewerKinds \<longrightarrow>
            (\<exists>(res :: ('f, 's) Viewer obj) data'.
               createAndLoadViewer sanitize createDataDef getGraphQLType queryFields data
                 isMutation oass = Inr (res, data') \<and>
               length res = length queryFields + 1 \<and>
               distinct (obj_keys res) \<and>
               obj_keys res =
                 viewerNames sanitize isMutation data queryFields @ [anyAuthObjectName isMutation] \<and>
               anyAuthObjectName isMutation \<notin>
                 set (viewerNames sanitize isMutation data queryFields))) \<and>
         (\<exists>(res :: ('f, 's) Viewer obj) data'.
            createAndLoadViewer sanitizeCamel createDataDef getGraphQLType queryFields data
              isMutation oass = Inr (res, data') \<and>
            length res = length queryFields + 1 \<and>
            distinct (obj_keys res) \<and>
            obj_keys res =
              viewerNames sanitizeCamel isMutation data queryFields @ [anyAuthObjectName isMutation] \<and>
            anyAuthObjectName isMutation \<notin>
              set (viewerNames sanitizeCamel isMutation data queryFields))"
proof (intro conjI impI)
  assume "prefixFree sanitize isMutation viewerKinds"
  from viewer_count_aux [OF assms this]
  show "\<exists>(res :: ('f, 's) Viewer obj) data'.
               createAndLoadViewer sanitize createDataDef getGraphQLType queryFields data
                 isMutation oass = Inr (res, data') \<and>
               length res = length queryFields + 1 \<and>
               distinct (obj_keys res) \<and>
               obj_keys res =
                 viewerNames sanitize isMutation data queryFields @ [anyAuthObjectName isMutation] \<and>
               anyAuthObjectName isMutation \<notin>
                 set (viewerNames sanitize isMutation data queryFields)" .
next
  from viewer_count_aux [OF assms prefixFree_sanitizeCamel]
  show "\<exists>(res :: ('f, 's) Viewer obj) data'.
            createAndLoadViewer sanitizeCamel createDataDef getGraphQLType queryFields data
              isMutation oass = Inr (res, data') \<and>
            length res = length queryFields + 1 \<and>
            distinct (obj_keys res) \<and>
            obj_keys res =
              viewerNames sanitizeCamel isMutation data queryFields @ [anyAuthObjectName isMutation] \<and>
            anyAuthObjectName isMutation \<notin>
              set (viewerNames sanitizeCamel isMutation data queryFields)" .
qed

text \<open>Basic, digest and API key authentication: four viewers.\<close>

theorem viewer_count_witness:
  "list_all (wellFormedEntry exData) (obj_keys exAllQueryFields) \<and>
   prefixFree sanitizeCamel False viewerKinds \<and>
   length exAllQueryFields = 3 \<and>
   (\<exists>res data'.
      createAndLoadViewer sanitizeCamel exCreateDataDef exGetGraphQLType exAllQueryFields exData
        False [exOas] = Inr (res, data') \<and>
      length res = 4 \<and>
      obj_keys res = [''viewerBasicAuth'', ''viewerHttp'', ''viewerApiKey'', ''viewerAnyAuth''])"
proof -
  have h: "\<forall>p \<in> set (obj_keys exAllQueryFields). wellFormedEntry exData p"
    by code_simp
  have n: "viewerNames sanitizeCamel False exData exAllQueryFields @ [anyAuthObjectName False] =
             [''viewerBasicAuth'', ''viewerHttp'', ''viewerApiKey'', ''viewerAnyAuth'']"
    by code_simp
  have l: "length exAllQueryFields = 3"
    by (simp add: exAllQueryFields_def)
  have f: "prefixFree sanitizeCamel False viewerKinds"
    by code_simp
  from viewer_count [OF h, of sanitizeCamel False exCreateDataDef exGetGraphQLType "[exOas]"] f
  obtain res data' where
    "createAndLoadViewer sanitizeCamel exCreateDataDef exGetGraphQLType exAllQueryFields exData
        False [exOas] = Inr (res, data')"
    "length res = length exAllQueryFields + 1"
    "obj_keys res = viewerNames sanitizeCamel False exData exAllQueryFields @ [anyAuthObjectName False]"
    by blast
  then show ?thesis
    unfolding n using h l f by (auto simp: list_all_iff)
qed

subsection \<open>What a resolve function writes\<close>

text \<open>
  C8, as the code has it. The resolve function of the AnyAuth viewer leaves \<open>data\<close> as it
  is. The resolve function of a per-protocol viewer calls \<open>sanitizeAndStore\<close> on the
  sanitize table of \<open>data\<close>: it writes the entry from the sanitized protocol name to the
  protocol name and nothing else, the value that it returns does not depend on \<open>data\<close>,
  and \<open>data\<close> is left as it is when the table has that entry already. After
  \<open>createAndLoadViewer\<close> the table has the entry of every declared protocol, and every
  resolve function of the result leaves \<open>data\<close> as it is, provided that no two declared
  protocol names have the same sanitized name.
\<close>

theorem resolve_writes_table_entry_only:
  fixes data :: "'s PreprocessingData" and res :: "('f, 's) Viewer obj"
  shows
  "snd (viewer_resolve
          (fst (getViewerAnyAuthOT sanitize createDataDef getGraphQLType name allFields data oass))
          root args ctx d) = d \<and>
   (obj_get (security data) protocolName = Some scheme \<longrightarrow>
      (\<exists>v :: ('f, 's) Viewer.
         getViewerOT sanitize name protocolName type protocolFields data oass = Inr v \<and>
         (\<forall>root args ctx d.
            snd (viewer_resolve v root args ctx d) =
              d\<lparr>saneMap := obj_set (saneMap d) (sanitize protocolName) protocolName\<rparr> \<and>
            (obj_get (saneMap d) (sanitize protocolName) = Some protocolName \<longrightarrow>
               snd (viewer_resolve v root args ctx d) = d) \<and>
            (\<forall>d'. fst (viewer_resolve v root args ctx d') = fst (viewer_resolve v root args ctx d))))) \<and>
   (createAndLoadViewer sanitize createDataDef getGraphQLType queryFields data isMutation oass =
      Inr (res, data') \<and>
    inj_on sanitize (set (obj_keys (security data))) \<longrightarrow>
      (\<forall>(viewerName, v) \<in> set res. \<forall>root args ctx.
         snd (viewer_resolve v root args ctx data') = data'))"
proof (intro conjI impI)
  show "snd (viewer_resolve
          (fst (getViewerAnyAuthOT sanitize createDataDef getGraphQLType name allFields data oass))
          root args ctx d) = d"
    by (simp add: getViewerAnyAuthOT_def anyAuthResolve_def Let_def case_prod_beta)
next
  assume sch: "obj_get (security data) protocolName = Some scheme"
  from getViewerOT_Inr [OF sch, of sanitize name type protocolFields oass]
  obtain v :: "('f, 's) Viewer" where
    v: "getViewerOT sanitize name protocolName type protocolFields data oass = Inr v"
    by blast
  from getViewerOT_resolvesProtocol [OF v]
  have r: "snd (viewer_resolve v root args ctx d) =
             d\<lparr>saneMap := obj_set (saneMap d) (sanitize protocolName) protocolName\<rparr>"
    for root args ctx d
    by (simp add: resolvesProtocol_def)
  have "snd (viewer_resolve v root args ctx d) = d"
    if "obj_get (saneMap d) (sanitize protocolName) = Some protocolName" for root args ctx d
    by (simp add: r obj_set_same [OF that])
  moreover have "fst (viewer_resolve v root args ctx d') = fst (viewer_resolve v root args ctx d)"
    for root args ctx d d'
    using getViewerOT_resolvesProtocol [OF v] by (simp add: resolvesProtocol_def)
  ultimately show "\<exists>v :: ('f, 's) Viewer.
         getViewerOT sanitize name protocolName type protocolFields data oass = Inr v \<and>
         (\<forall>root args ctx d.
            snd (viewer_resolve v root args ctx d) =
              d\<lparr>saneMap := obj_set (saneMap d) (sanitize protocolName) protocolName\<rparr> \<and>
            (obj_get (saneMap d) (sanitize protocolName) = Some protocolName \<longrightarrow>
               snd (viewer_resolve v root args ctx d) = d) \<and>
            (\<forall>d'. fst (viewer_resolve v root args ctx d') = fst (viewer_resolve v root args ctx d)))"
    using v r by blast
next
  assume a: "createAndLoadViewer sanitize createDataDef getGraphQLType queryFields data isMutation oass =
      Inr (res, data') \<and> inj_on sanitize (set (obj_keys (security data)))"
  then have run: "createAndLoadViewer sanitize createDataDef getGraphQLType queryFields data isMutation oass =
      Inr (res, data')" and inj: "inj_on sanitize (set (obj_keys (security data)))"
    by simp_all
  from run obtain st where
    loop: "forIn (loopBody sanitize isMutation oass) queryFields (initLocals data) = Inr st"
    by (cases "forIn (loopBody sanitize isMutation oass) queryFields (initLocals data)")
       (simp_all add: createAndLoadViewer_Inl)
  from forIn_warnings [OF loop] have sec: "security (loc_data st) = security data"
    by (auto simp: initLocals_def)
  let ?any = "getViewerAnyAuthOT sanitize createDataDef getGraphQLType
                (anyAuthObjectName isMutation) (anyAuthFields st) (loc_data st) oass"
  from run have res: "res = obj_set (results st) (anyAuthObjectName isMutation) (fst ?any)"
    and data': "data' = snd ?any"
    by (simp_all add: createAndLoadViewer_Inr [OF loop])
  have table: "saneMap data' = securityTable sanitize (security data) (saneMap (loc_data st))"
    by (simp add: data' saneMap_getViewerAnyAuthOT sec)
  have "\<forall>(n, v) \<in> set (results (initLocals data :: ('f, 's) Locals)).
          \<exists>p \<in> set (obj_keys (security (loc_data (initLocals data :: ('f, 's) Locals)))).
            resolvesProtocol sanitize p v"
    by (simp add: initLocals_def)
  from forIn_resolvers [OF loop this]
  have inv: "\<forall>(n, v) \<in> set (results st). \<exists>p \<in> set (obj_keys (security data)).
               resolvesProtocol sanitize p v"
    by (simp add: initLocals_def)
  show "\<forall>(viewerName, v) \<in> set res. \<forall>root args ctx.
         snd (viewer_resolve v root args ctx data') = data'"
  proof (intro ballI, clarify)
    fix n v root args ctx
    assume "(n, v) \<in> set res"
    with set_obj_set_subset [of "results st" "anyAuthObjectName isMutation" "fst ?any"]
    consider "v = fst ?any" | "(n, v) \<in> set (results st)"
      unfolding res by auto
    then show "snd (viewer_resolve v root args ctx data') = data'"
    proof cases
      case 1
      then show ?thesis
        by (simp add: getViewerAnyAuthOT_def anyAuthResolve_def Let_def case_prod_beta)
    next
      case 2
      with inv obtain p where p: "p \<in> set (obj_keys (security data))"
        and rp: "resolvesProtocol sanitize p v"
        by auto
      have "obj_get (saneMap data') (sanitize p) = Some p"
        unfolding table by (rule securityTable_entry [OF inj p])
      then show ?thesis
        using rp by (simp add: resolvesProtocol_def obj_set_same)
    qed
  qed
qed

text \<open>The viewer of \<open>apiKeyAuth\<close>, resolved after the viewers have been built.\<close>

theorem resolve_writes_table_entry_only_witness:
  "inj_on sanitizeCamel (set (obj_keys (security exData))) \<and>
   obj_get (security exData) ''apiKeyAuth'' = Some exApiKey \<and>
   (\<exists>res data' v.
      createAndLoadViewer sanitizeCamel exCreateDataDef exGetGraphQLType exQueryFields exData
        False [exOas] = Inr (res, data') \<and>
      obj_get res ''viewerApiKey'' = Some v \<and>
      snd (viewer_resolve v JUndefined (JObject [(''apiKey'', JString ''abc'')]) JUndefined data') =
        data')"
proof -
  let ?run = "createAndLoadViewer sanitizeCamel exCreateDataDef exGetGraphQLType exQueryFields exData
        False [exOas]"
  have k: "obj_keys (security exData) = [''digestAuth'', ''basicAuth'', ''apiKeyAuth'']"
    by (simp add: exData_def)
  have s: "sanitizeCamel ''digestAuth'' = ''digestAuth''" "sanitizeCamel ''basicAuth'' = ''basicAuth''"
    "sanitizeCamel ''apiKeyAuth'' = ''apiKeyAuth''"
    by code_simp+
  have i: "inj_on sanitizeCamel (set (obj_keys (security exData)))"
    by (simp add: k s)
  have h: "obj_get (security exData) ''apiKeyAuth'' = Some exApiKey"
    by (simp add: exData_def obj_get_def)
  have "(case ?run of Inl e \<Rightarrow> False | Inr (res, d) \<Rightarrow> obj_has res ''viewerApiKey'')"
    by code_simp
  then obtain res data' v where run: "?run = Inr (res, data')"
    and v: "obj_get res ''viewerApiKey'' = Some v"
    by (auto simp: obj_has_iff split: sum.splits)
  from v have "(''viewerApiKey'', v) \<in> set res"
    by (simp add: obj_get_def map_of_SomeD)
  with resolve_writes_table_entry_only [of sanitizeCamel exCreateDataDef exGetGraphQLType
      _ _ exData "[exOas]" _ _ _ _ _ _ _ _ exQueryFields False res data'] run i
  have "snd (viewer_resolve v JUndefined (JObject [(''apiKey'', JString ''abc'')]) JUndefined data') =
        data'"
    by blast
  with i h run v show ?thesis by blast
qed

text \<open>
  C8 as stated fails. The protocols \<open>my-key\<close> and \<open>my.key\<close> have the sanitized name
  \<open>myKey\<close>. \<open>createAndLoadViewer\<close> leaves the table with \<open>myKey\<close> for \<open>my.key\<close>, the
  protocol declared last; resolving \<open>viewerApiKey\<close>, the viewer of \<open>my-key\<close>, then
  writes \<open>myKey\<close> for \<open>my-key\<close> into the table.
\<close>

theorem resolve_writes_table_entry_only_counterexample:
  "resultTable (createAndLoadViewer sanitizeCamel exCreateDataDef exGetGraphQLType
      exDashQueryFields exDashData False [exOas]) = Inr [(''myKey'', ''my.key'')] \<and>
   resolveTable (createAndLoadViewer sanitizeCamel exCreateDataDef exGetGraphQLType
      exDashQueryFields exDashData False [exOas])
      ''viewerApiKey'' JUndefined (JObject [(''apiKey'', JString ''abc'')]) JUndefined =
     Inr [(''myKey'', ''my-key'')]"
  by code_simp

end
